theory Spec2Isabelle
  imports Main "HOL-Library.Multiset"
begin

section \<open>Errors and JavaScript values\<close>

text \<open>
  A JavaScript \<open>throw\<close> is a value of type \<open>error\<close> on the left of a sum.
  \<open>Error m\<close> is a plain \<open>new Error(...)\<close> (a programming error; \<open>m\<close> names the
  message of the source), \<open>H5pError code params status\<close> is the typed, localisable
  \<open>new H5pError(code, params, status)\<close> and \<open>TypeError\<close> is what the runtime
  throws on a property access on \<open>undefined\<close>.
\<close>

datatype message =
    MustCallFromUberNameWithOption
  | MustSpecifyOption
  | NotValidUbernameHyphen string
  | NotValidUbernameWhitespace string
  | MajorVersionInvalid
  | MinorVersionInvalid
  | MachineNameIllegal string

datatype error =
    Error message
  | H5pError string "(string \<times> string) list" nat
  | TypeError

text \<open>
  A JavaScript number is modelled as \<open>NaN\<close> or an integer: \<open>Num i\<close> is the number
  with the integer value \<open>i\<close>, exact for \<open>\<bar>i\<bar> < 2 ^ 53\<close>. Fractions and infinities
  are not represented. \<open>jsval\<close> is what a caller may pass where a version is expected:
  a number, a string, or a value of another type (\<open>undefined\<close>, \<open>null\<close>, a boolean, an
  object). A string is a list of characters, one per UTF-16 code unit below 256.
\<close>

datatype number = NaN | Num int

datatype jsval = JNum number | JStr string | JOther

subsection \<open>Character classes of the regular expressions\<close>

text \<open>\<open>code c\<close> is the code unit of a character (\<open>charCodeAt\<close>).\<close>

definition code :: "char \<Rightarrow> nat" where
  "code c = of_char c"

text \<open>The class \<open>\d\<close>: \<open>[0-9]\<close>, the codes 48 to 57.\<close>

definition is_digit :: "char \<Rightarrow> bool" where
  "is_digit c = (48 \<le> code c \<and> code c \<le> 57)"

text \<open>
  The class \<open>\w\<close>: \<open>[A-Za-z0-9_]\<close>, the codes 97 to 122, 65 to 90, the digits and
  \<open>_\<close> (the flag \<open>i\<close> adds nothing to it).
\<close>

definition is_word :: "char \<Rightarrow> bool" where
  "is_word c = ((97 \<le> code c \<and> code c \<le> 122) \<or> (65 \<le> code c \<and> code c \<le> 90)
     \<or> is_digit c \<or> c = CHR ''_'')"

text \<open>The class \<open>[\w.]\<close>.\<close>

definition is_name_char :: "char \<Rightarrow> bool" where
  "is_name_char c = (is_word c \<or> c = CHR ''.'')"

text \<open>
  The class \<open>\s\<close> below code 256: tab, line feed, vertical tab, form feed, carriage
  return, space and the no-break space.
\<close>

definition is_space :: "char \<Rightarrow> bool" where
  "is_space c = (code c \<in> {9, 10, 11, 12, 13, 32, 160})"

subsection \<open>Numbers and strings\<close>

definition digit_char :: "nat \<Rightarrow> char" where
  "digit_char d = char_of (48 + d)"

definition digit_val :: "char \<Rightarrow> nat" where
  "digit_val c = code c - 48"

text \<open>The decimal digits of a natural number, as \<open>String(n)\<close> writes them.\<close>

fun nat_to_string :: "nat \<Rightarrow> string" where
  "nat_to_string n =
     (if n < 10 then [digit_char n] else nat_to_string (n div 10) @ [digit_char (n mod 10)])"

declare nat_to_string.simps [simp del]

text \<open>What a template literal \<open>`${n}`\<close> writes for a number.\<close>

definition number_to_string :: "number \<Rightarrow> string" where
  "number_to_string n =
     (case n of
        NaN \<Rightarrow> ''NaN''
      | Num i \<Rightarrow> (if i < 0 then CHR ''-'' # nat_to_string (nat (- i)) else nat_to_string (nat i)))"

definition digits_value :: "string \<Rightarrow> nat" where
  "digits_value ds = foldl (\<lambda>acc c. 10 * acc + digit_val c) 0 ds"

text \<open>
  \<open>Number.parseInt(s, 10)\<close>: leading white space is skipped, one sign is read, then the
  longest run of decimal digits; with no digit the result is \<open>NaN\<close>. Whatever follows
  the digits is ignored.
\<close>

definition parseInt :: "string \<Rightarrow> number" where
  "parseInt s =
     (let t = dropWhile is_space s;
          neg = (case t of c # _ \<Rightarrow> c = CHR ''-'' | [] \<Rightarrow> False);
          u = (case t of c # r \<Rightarrow> (if c = CHR ''-'' \<or> c = CHR ''+'' then r else t) | [] \<Rightarrow> t);
          ds = takeWhile is_digit u
      in if ds = [] then NaN
         else Num (if neg then - int (digits_value ds) else int (digits_value ds)))"

section \<open>LibraryName\<close>

record LibraryName =
  machineName :: string
  majorVersion :: number
  minorVersion :: number

record options =
  useHyphen :: bool
  useWhitespace :: bool

text \<open>\<open>/^[\w.]+$/i.test(machineName)\<close>\<close>

definition test_machine_name :: "string \<Rightarrow> bool" where
  "test_machine_name s = (s \<noteq> [] \<and> list_all is_name_char s)"

definition validateMachineName :: "string \<Rightarrow> error + unit" where
  "validateMachineName name =
     (if \<not> test_machine_name name then Inl (Error (MachineNameIllegal name)) else Inr ())"

text \<open>
  \<open>validate\<close> reads the three properties of the object it is given; the versions may
  hold any value.
\<close>

definition is_valid_number :: "jsval \<Rightarrow> bool" where
  "is_valid_number v = (case v of JNum n \<Rightarrow> n \<noteq> NaN | _ \<Rightarrow> False)"

definition validate :: "string \<Rightarrow> jsval \<Rightarrow> jsval \<Rightarrow> error + unit" where
  "validate name major minor =
     (case validateMachineName name of
        Inl e \<Rightarrow> Inl e
      | Inr _ \<Rightarrow>
          if \<not> is_valid_number major then Inl (Error MajorVersionInvalid)
          else if \<not> is_valid_number minor then Inl (Error MinorVersionInvalid)
          else Inr ())"

text \<open>
  The constructor: a version given as a string is replaced by \<open>parseInt\<close> of it, then
  \<open>validate\<close> runs on the object. When it returns, both versions are numbers.
\<close>

definition string_to_number :: "jsval \<Rightarrow> jsval" where
  "string_to_number v = (case v of JStr s \<Rightarrow> JNum (parseInt s) | _ \<Rightarrow> v)"

definition the_number :: "jsval \<Rightarrow> number" where
  "the_number v = (case v of JNum n \<Rightarrow> n | _ \<Rightarrow> NaN)"

definition new_LibraryName :: "string \<Rightarrow> jsval \<Rightarrow> jsval \<Rightarrow> error + LibraryName" where
  "new_LibraryName name major minor =
     (let major' = string_to_number major;
          minor' = string_to_number minor
      in case validate name major' minor' of
           Inl e \<Rightarrow> Inl e
         | Inr _ \<Rightarrow> Inr \<lparr>machineName = name, majorVersion = the_number major',
                          minorVersion = the_number minor'\<rparr>)"

definition equal :: "LibraryName \<Rightarrow> LibraryName \<Rightarrow> bool" where
  "equal library1 library2 =
     (machineName library1 = machineName library2 \<and>
      majorVersion library1 = majorVersion library2 \<and>
      minorVersion library1 = minorVersion library2)"

subsection \<open>Matching the ubername patterns\<close>

text \<open>
  \<open>plus_then C k\<close> is a backtracking matcher for \<open>(C+)\<close> followed by the rest of a
  pattern \<open>k\<close>: the group takes as many characters of the class as it can, and gives
  them back one at a time until \<open>k\<close> matches what is left. It returns the group and
  the result of \<open>k\<close>.
\<close>

fun plus_then :: "(char \<Rightarrow> bool) \<Rightarrow> (string \<Rightarrow> 'a option) \<Rightarrow> string \<Rightarrow> (string \<times> 'a) option" where
  "plus_then C k [] = None"
| "plus_then C k (c # cs) =
     (if C c then
        (case plus_then C k cs of
           Some (g, r) \<Rightarrow> Some (c # g, r)
         | None \<Rightarrow> (case k cs of Some r \<Rightarrow> Some ([c], r) | None \<Rightarrow> None))
      else None)"

text \<open>\<open>$\<close> without the flag \<open>m\<close>: the end of the input.\<close>

definition at_end :: "string \<Rightarrow> unit option" where
  "at_end s = (if s = [] then Some () else None)"

text \<open>\<open>(\d+)\.(\d+)$\<close>\<close>

definition match_versions :: "string \<Rightarrow> (string \<times> string) option" where
  "match_versions s =
     map_option (\<lambda>(a, b, _). (a, b))
       (plus_then is_digit
          (\<lambda>r. case r of c # r' \<Rightarrow> (if c = CHR ''.'' then plus_then is_digit at_end r' else None)
                | [] \<Rightarrow> None) s)"

text \<open>
  \<open>^([\w.]+)S(\d+)\.(\d+)$\<close> where the separator \<open>S\<close> is one character of the class
  \<open>sep\<close>; the result is the three groups.
\<close>

definition match_ubername :: "(char \<Rightarrow> bool) \<Rightarrow> string \<Rightarrow> (string \<times> string \<times> string) option" where
  "match_ubername sep s =
     plus_then is_name_char
       (\<lambda>r. case r of c # r' \<Rightarrow> (if sep c then match_versions r' else None) | [] \<Rightarrow> None) s"

definition is_hyphen :: "char \<Rightarrow> bool" where
  "is_hyphen c = (c = CHR ''-'')"

text \<open>The separator class of \<open>nameRegex\<close>: \<open>[-\s]\<close>, \<open>-\<close> or \<open>\s\<close>.\<close>

definition separator :: "options \<Rightarrow> char \<Rightarrow> bool" where
  "separator opts =
     (if useHyphen opts \<and> useWhitespace opts then (\<lambda>c. is_hyphen c \<or> is_space c)
      else if useHyphen opts then is_hyphen
      else is_space)"

definition example :: "options \<Rightarrow> string" where
  "example opts =
     (if useHyphen opts \<and> useWhitespace opts then ''H5P.Example-1.0 or H5P.Example 1.0''
      else if useHyphen opts \<and> \<not> useWhitespace opts then ''H5P.Example-1.0''
      else ''H5P.Example 1.0'')"

definition fromUberName :: "string \<Rightarrow> options \<Rightarrow> error + LibraryName" where
  "fromUberName ubername opts =
     (if \<not> useHyphen opts \<and> \<not> useWhitespace opts then Inl (Error MustCallFromUberNameWithOption)
      else case match_ubername (separator opts) ubername of
             None \<Rightarrow> Inl (H5pError ''invalid-ubername-pattern''
                             [(''example'', example opts), (''name'', ubername)] 400)
           | Some (g1, g2, g3) \<Rightarrow>
               new_LibraryName g1 (JNum (parseInt g2)) (JNum (parseInt g3)))"

definition toUberName :: "LibraryName \<Rightarrow> options \<Rightarrow> error + string" where
  "toUberName libraryName opts =
     (if useHyphen opts then
        (let ubername = machineName libraryName @ ''-'' @ number_to_string (majorVersion libraryName)
                          @ ''.'' @ number_to_string (minorVersion libraryName)
         in if match_ubername is_hyphen ubername = None
            then Inl (Error (NotValidUbernameHyphen ubername)) else Inr ubername)
      else if useWhitespace opts then
        (let ubername = machineName libraryName @ '' '' @ number_to_string (majorVersion libraryName)
                          @ ''.'' @ number_to_string (minorVersion libraryName)
         in if match_ubername is_space ubername = None
            then Inl (Error (NotValidUbernameWhitespace ubername)) else Inr ubername)
      else Inl (Error MustSpecifyOption))"

text \<open>The default options of both functions: \<open>{ useHyphen: true, useWhitespace: false }\<close>.\<close>

definition default_options :: options where
  "default_options = \<lparr>useHyphen = True, useWhitespace = False\<rparr>"

text \<open>
  The invariant of the data model: the machine name matches \<open>^[A-Za-z0-9_.]+$\<close> and
  both versions are non-negative integers.
\<close>

definition valid_identity :: "LibraryName \<Rightarrow> bool" where
  "valid_identity l =
     (test_machine_name (machineName l) \<and>
      (case majorVersion l of Num a \<Rightarrow> 0 \<le> a | NaN \<Rightarrow> False) \<and>
      (case minorVersion l of Num b \<Rightarrow> 0 \<le> b | NaN \<Rightarrow> False))"

section \<open>Installed libraries\<close>

text \<open>
  The metadata of an installed library (\<open>IInstalledLibrary\<close>): a library name with a
  patch version (a natural number, as the data model of the specification has it), the
  title, the dependency declarations and the preloaded files (each given by its path).
  An absent list is the empty list.
\<close>

record MetadataSettings =
  disable :: nat
  disableExtraTitleField :: nat

record InstalledLibrary = LibraryName +
  patchVersion :: nat
  title :: string
  runnable :: bool
  preloadedDependencies :: "LibraryName list"
  editorDependencies :: "LibraryName list"
  dynamicDependencies :: "LibraryName list"
  preloadedCss :: "string list"
  preloadedJs :: "string list"
  metadataSettings :: "MetadataSettings option"

section \<open>H5PEditor.getLibraryOverview\<close>

text \<open>
  \<open>libraryManager.getLibrary(lib, language)\<close> is a parameter: it rejects with an error,
  or resolves to \<open>undefined\<close> (\<open>None\<close>) or to the metadata of the library. The fields
  of an overview entry carry the prefix \<open>o_\<close>.
\<close>

record LibraryOverviewForClient =
  o_majorVersion :: number
  o_metadataSettings :: "MetadataSettings option"
  o_minorVersion :: number
  o_name :: string
  o_restricted :: bool
  o_runnable :: bool
  o_title :: string
  o_tutorialUrl :: string
  o_uberName :: string

text \<open>
  \<open>xs.map(f)\<close> for an \<open>f\<close> that may throw: the first error ends the map.
\<close>

fun map_throwing :: "('a \<Rightarrow> error + 'b) \<Rightarrow> 'a list \<Rightarrow> error + 'b list" where
  "map_throwing f [] = Inr []"
| "map_throwing f (x # xs) =
     (case f x of
        Inl e \<Rightarrow> Inl e
      | Inr y \<Rightarrow> (case map_throwing f xs of Inl e \<Rightarrow> Inl e | Inr ys \<Rightarrow> Inr (y # ys)))"

definition overview_entry :: "InstalledLibrary \<Rightarrow> LibraryOverviewForClient" where
  "overview_entry loadedLibrary =
     \<lparr>o_majorVersion = majorVersion loadedLibrary,
      o_metadataSettings = metadataSettings loadedLibrary,
      o_minorVersion = minorVersion loadedLibrary,
      o_name = machineName loadedLibrary,
      o_restricted = False,
      o_runnable = runnable loadedLibrary,
      o_title = title loadedLibrary,
      o_tutorialUrl = '''',
      o_uberName = machineName loadedLibrary @ '' '' @ number_to_string (majorVersion loadedLibrary)
                   @ ''.'' @ number_to_string (minorVersion loadedLibrary)\<rparr>"

text \<open>
  The asynchronous function mapped over the libraries: an error of \<open>getLibrary\<close> is
  caught and gives \<open>undefined\<close>, as a library that is not there does.
\<close>

definition overview_of :: "(LibraryName \<Rightarrow> string option \<Rightarrow> error + InstalledLibrary option)
    \<Rightarrow> string option \<Rightarrow> LibraryName \<Rightarrow> LibraryOverviewForClient option" where
  "overview_of getLibrary language lib =
     (case getLibrary lib language of
        Inl e \<Rightarrow> None
      | Inr None \<Rightarrow> None
      | Inr (Some loadedLibrary) \<Rightarrow> Some (overview_entry loadedLibrary))"

text \<open>
  The options \<open>{ useWhitespace: true }\<close> leave \<open>useHyphen\<close> undefined, which counts
  as false. \<open>fromUberName\<close> returns a library name or throws, so the first filter of
  the source (\<open>lib !== undefined\<close>) removes nothing and is left out;
  \<open>Promise.all\<close> keeps the order of the list.
\<close>

definition getLibraryOverview :: "(LibraryName \<Rightarrow> string option \<Rightarrow> error + InstalledLibrary option)
    \<Rightarrow> string list \<Rightarrow> string option \<Rightarrow> error + LibraryOverviewForClient list" where
  "getLibraryOverview getLibrary ubernames language =
     (case map_throwing (\<lambda>name. fromUberName name \<lparr>useHyphen = False, useWhitespace = True\<rparr>) ubernames of
        Inl e \<Rightarrow> Inl e
      | Inr libs \<Rightarrow>
          Inr (map the (filter (\<lambda>lib. lib \<noteq> None) (map (overview_of getLibrary language) libs))))"

subsection \<open>A library manager for the examples\<close>

definition example_library :: InstalledLibrary where
  "example_library =
     \<lparr>machineName = ''H5P.Example'', majorVersion = Num 1, minorVersion = Num 0,
      patchVersion = 3, title = ''Example'', runnable = True,
      preloadedDependencies = [], editorDependencies = [], dynamicDependencies = [],
      preloadedCss = [], preloadedJs = [''example.js''], metadataSettings = None\<rparr>"

definition example_getLibrary :: "LibraryName \<Rightarrow> string option \<Rightarrow> error + InstalledLibrary option" where
  "example_getLibrary lib language =
     (if machineName lib = ''H5P.Example'' then Inr (Some example_library)
      else if machineName lib = ''H5P.Broken'' then Inl (H5pError ''library-load-failed'' [] 500)
      else Inr None)"

section \<open>Installing a library\<close>

text \<open>
  LibraryManager.js is not among the sources: only its declarations
  (LibraryManager.d.ts) are. The installation is modelled from sections 4.4, 6 and 7 of
  the specification. Keys, paths and file contents:
\<close>

type_synonym libraryKey = LibraryName
type_synonym relativePath = string
type_synonym bytes = string

text \<open>
  Modelled from the spec: the library's canonical directory key of section 4.4, under
  which the storage backend keeps a library. The backend is not among the sources; the
  key is the identity (machine name, major and minor version) of the library.
\<close>

definition libraryKey :: "InstalledLibrary \<Rightarrow> libraryKey" where
  "libraryKey lib = \<lparr>machineName = machineName lib, majorVersion = majorVersion lib,
                      minorVersion = minorVersion lib\<rparr>"

text \<open>
  Modelled from the spec: the state behind the storage backend and the lock provider
  of section 6, neither of which is among the sources. For each directory key the
  files stored under it (relative path and bytes), the metadata record if there is
  one, and the names of the locks that are held.
\<close>

record repository =
  files :: "libraryKey \<Rightarrow> (relativePath \<times> bytes) list"
  metadata :: "libraryKey \<Rightarrow> InstalledLibrary option"
  locks :: "string set"

text \<open>
  Modelled from the spec: the mutating operations of the storage backend of section 6
  (\<open>write\<close>, \<open>writeMetadata\<close>, \<open>delete\<close>) and the
  removal of one file, which step 4 of section 4.4 needs for an upgrade and section 6
  does not name.
\<close>

datatype operation =
    Write libraryKey relativePath
  | Remove libraryKey relativePath
  | WriteMetadata libraryKey
  | Delete libraryKey

text \<open>
  Modelled from the spec: the failures of an install attempt in sections 4.4 and 7:
  \<open>InstallLockTimeout\<close>, a missing required file (consistency error), an
  I/O failure of the storage backend (propagated unchanged), and the distinct error of
  a rollback that could not delete.
\<close>

datatype install_error =
    InstallLockTimeout
  | MissingRequiredFile relativePath
  | StorageFailure operation
  | RepositoryMayBeInconsistent operation

text \<open>
  Modelled from the spec: the I/O failures of the storage backend (section 7): the
  operations that fail when they are attempted.
\<close>

type_synonym faults = "operation \<Rightarrow> bool"

text \<open>
  Modelled from the spec: what \<open>write(libraryKey, relativePath, bytes)\<close>
  of section 6 does to the files of one library: the bytes replace those of the path,
  or the path is added.
\<close>

fun put :: "relativePath \<Rightarrow> bytes \<Rightarrow> (relativePath \<times> bytes) list \<Rightarrow> (relativePath \<times> bytes) list" where
  "put p b [] = [(p, b)]"
| "put p b ((q, c) # fs) = (if q = p then (p, b) # fs else (q, c) # put p b fs)"

text \<open>
  Modelled from the spec: \<open>write(libraryKey, relativePath, bytes)\<close> of the
  storage backend (section 6), which is not among the sources. \<open>F\<close> says
  which operations of the backend fail; a failed operation changes nothing.
\<close>

definition write_file :: "faults \<Rightarrow> libraryKey \<Rightarrow> relativePath \<Rightarrow> bytes \<Rightarrow> repository \<Rightarrow> install_error + repository" where
  "write_file F k p b r =
     (if F (Write k p) then Inl (StorageFailure (Write k p))
      else Inr (r\<lparr>files := (files r)(k := put p b (files r k))\<rparr>))"

text \<open>
  Modelled from the spec: the removal of one file of a library, which step 4 of
  section 4.4 requires for the files only the old version has; the storage backend is
  not among the sources.
\<close>

definition remove_file :: "faults \<Rightarrow> libraryKey \<Rightarrow> relativePath \<Rightarrow> repository \<Rightarrow> install_error + repository" where
  "remove_file F k p r =
     (if F (Remove k p) then Inl (StorageFailure (Remove k p))
      else Inr (r\<lparr>files := (files r)(k := filter (\<lambda>(q, _). q \<noteq> p) (files r k))\<rparr>))"

text \<open>
  Modelled from the spec: \<open>writeMetadata(libraryKey, InstalledLibrary)\<close>
  of the storage backend (section 6), which is not among the sources.
\<close>

definition writeMetadata :: "faults \<Rightarrow> libraryKey \<Rightarrow> InstalledLibrary \<Rightarrow> repository \<Rightarrow> install_error + repository" where
  "writeMetadata F k lib r =
     (if F (WriteMetadata k) then Inl (StorageFailure (WriteMetadata k))
      else Inr (r\<lparr>metadata := (metadata r)(k := Some lib)\<rparr>))"

text \<open>
  Modelled from the spec: the repository after \<open>delete(libraryKey)\<close>
  (recursive, section 6): nothing is stored under the key, neither files nor metadata.
\<close>

definition deleted :: "libraryKey \<Rightarrow> repository \<Rightarrow> repository" where
  "deleted k r = r\<lparr>files := (files r)(k := []), metadata := (metadata r)(k := None)\<rparr>"

text \<open>
  Modelled from the spec: \<open>delete(libraryKey)\<close> of the storage backend
  (section 6), which is not among the sources.
\<close>

definition delete_library :: "faults \<Rightarrow> libraryKey \<Rightarrow> repository \<Rightarrow> install_error + repository" where
  "delete_library F k r = (if F (Delete k) then Inl (StorageFailure (Delete k)) else Inr (deleted k r))"

text \<open>
  Modelled from the spec: \<open>list(libraryKey)\<close> of the storage backend
  (section 6), which is not among the sources.
\<close>

definition list_files :: "libraryKey \<Rightarrow> repository \<Rightarrow> relativePath list" where
  "list_files k r = map fst (files r k)"

text \<open>
  Modelled from the spec: \<open>readMetadata(libraryKey)\<close> of the storage
  backend (section 6), which is not among the sources.
\<close>

definition readMetadata :: "libraryKey \<Rightarrow> repository \<Rightarrow> InstalledLibrary option" where
  "readMetadata k r = metadata r k"

text \<open>
  Modelled from the spec: the staging location of step 1 of section 4.4: the parsed
  metadata of the candidate and its files, in the order in which they are copied.
\<close>

record staging =
  candidate :: InstalledLibrary
  staged :: "(relativePath \<times> bytes) list"

text \<open>
  Modelled from the spec: the two committing states of section 4.4.
\<close>

datatype install_mode = FreshInstall | Upgrading

text \<open>
  Modelled from the spec: the successful ends of an install attempt in section 4.4:
  \<open>Skipped\<close>, or \<open>Committed\<close> after a fresh install or an
  upgrade.
\<close>

datatype install_result = Skipped | Committed install_mode

text \<open>
  Modelled from the spec: the file copy of step 4 of section 4.4
  (\<open>copyLibraryFiles\<close> is declared in LibraryManager.d.ts, its code is not
  among the sources): the staged files are written one after the other; the first
  failure ends the copy and leaves what was written.
\<close>

fun copy_files :: "faults \<Rightarrow> libraryKey \<Rightarrow> (relativePath \<times> bytes) list \<Rightarrow> repository
    \<Rightarrow> install_error option \<times> repository" where
  "copy_files F k [] r = (None, r)"
| "copy_files F k ((p, b) # fs) r =
     (case write_file F k p b r of
        Inl e \<Rightarrow> (Some e, r)
      | Inr r' \<Rightarrow> copy_files F k fs r')"

text \<open>
  Modelled from the spec: the removal, one by one, of the files of step 4 of section
  4.4 that only the old version has.
\<close>

fun remove_files :: "faults \<Rightarrow> libraryKey \<Rightarrow> relativePath list \<Rightarrow> repository
    \<Rightarrow> install_error option \<times> repository" where
  "remove_files F k [] r = (None, r)"
| "remove_files F k (p # ps) r =
     (case remove_file F k p r of
        Inl e \<Rightarrow> (Some e, r)
      | Inr r' \<Rightarrow> remove_files F k ps r')"

text \<open>
  Modelled from the spec: the files belonging to the old version that are not present
  in the new version (step 4 of section 4.4).
\<close>

definition old_only :: "libraryKey \<Rightarrow> staging \<Rightarrow> repository \<Rightarrow> relativePath list" where
  "old_only k s r = filter (\<lambda>p. p \<notin> set (map fst (staged s))) (list_files k r)"

text \<open>
  Modelled from the spec: the commit of step 4 of section 4.4 (the code of
  \<open>installLibrary\<close> and \<open>updateLibrary\<close> is not among the
  sources): copy every staged file, then remove the files only the old version had
  (there are none in a fresh install), and write the metadata record last. The first
  failure ends the commit.
\<close>

definition commit :: "faults \<Rightarrow> libraryKey \<Rightarrow> staging \<Rightarrow> repository \<Rightarrow> install_error option \<times> repository" where
  "commit F k s r =
     (case copy_files F k (staged s) r of
        (Some e, r1) \<Rightarrow> (Some e, r1)
      | (None, r1) \<Rightarrow>
          (case remove_files F k (old_only k s r) r1 of
             (Some e, r2) \<Rightarrow> (Some e, r2)
           | (None, r2) \<Rightarrow>
               (case writeMetadata F k (candidate s) r2 of
                  Inl e \<Rightarrow> (Some e, r2)
                | Inr r3 \<Rightarrow> (None, r3))))"

text \<open>
  Modelled from the spec: the files the metadata declares as required (step 7 of
  section 4.4): the preloaded scripts and styles.
\<close>

definition required_files :: "InstalledLibrary \<Rightarrow> relativePath list" where
  "required_files lib = preloadedJs lib @ preloadedCss lib"

text \<open>
  Modelled from the spec: the required files that are not in staging (step 7 of
  section 4.4; \<open>checkConsistency\<close> is declared in LibraryManager.d.ts, its
  code is not among the sources).
\<close>

definition missing_files :: "staging \<Rightarrow> relativePath list" where
  "missing_files s = filter (\<lambda>p. p \<notin> set (map fst (staged s))) (required_files (candidate s))"

text \<open>
  Modelled from the spec: steps 7, 4 and 5 of section 4.4
  (\<open>installLibrary\<close> and \<open>updateLibrary\<close> are declared in
  LibraryManager.d.ts, their code is not among the sources). A missing required file
  aborts before any write. A failure during the commit is rolled back by deleting
  everything under the directory key, in a fresh install and in an upgrade alike, and
  the failure is reported; when the delete fails too, the distinct error of section 7
  is reported.
\<close>

definition install :: "faults \<Rightarrow> install_mode \<Rightarrow> libraryKey \<Rightarrow> staging \<Rightarrow> repository
    \<Rightarrow> (install_error + install_result) \<times> repository" where
  "install F mode k s r =
     (case missing_files s of
        p # _ \<Rightarrow> (Inl (MissingRequiredFile p), r)
      | [] \<Rightarrow>
          (case commit F k s r of
             (None, r') \<Rightarrow> (Inr (Committed mode), r')
           | (Some e, r') \<Rightarrow>
               (case delete_library F k r' of
                  Inl _ \<Rightarrow> (Inl (RepositoryMayBeInconsistent (Delete k)), r')
                | Inr r'' \<Rightarrow> (Inl e, r''))))"

text \<open>
  Modelled from the spec: the decision of step 3 of section 4.4: no installed version
  with the candidate's machine name, major and minor version gives a fresh install; an
  installed patch version greater than or equal to the candidate's gives
  \<open>Skipped\<close>, with no change; a lower one gives an upgrade.
\<close>

definition decide :: "faults \<Rightarrow> staging \<Rightarrow> repository \<Rightarrow> (install_error + install_result) \<times> repository" where
  "decide F s r =
     (let k = libraryKey (candidate s) in
      case readMetadata k r of
        None \<Rightarrow> install F FreshInstall k s r
      | Some existing \<Rightarrow>
          if patchVersion existing \<ge> patchVersion (candidate s) then (Inr Skipped, r)
          else install F Upgrading k s r)"

text \<open>
  Modelled from the spec: steps 7, 4 and 5 of section 4.4
  (\<open>installLibrary\<close> and \<open>updateLibrary\<close> are declared in
  LibraryManager.d.ts, their code is not among the sources). A missing required file
  aborts before any write. A failure during the commit is rolled back by deleting
  everything under the directory key, in a fresh install and in an upgrade alike, and
  the failure is reported; when the delete fails too, the distinct error of section 7
  is reported.
\<close>

definition installFromDirectory :: "faults \<Rightarrow> staging \<Rightarrow> repository \<Rightarrow> (install_error + install_result) \<times> repository" where
  "installFromDirectory F s r =
     (let lock = machineName (candidate s) in
      if lock \<in> locks r then (Inl InstallLockTimeout, r)
      else
        (let (res, r') = decide F s (r\<lparr>locks := insert lock (locks r)\<rparr>)
         in (res, r'\<lparr>locks := locks r' - {lock}\<rparr>)))"

subsection \<open>The scenario of the specification\<close>

text \<open>
  The library \<open>Foo.Bar\<close> 1.0 at a given patch version; a repository that holds patch
  2 with two files; a staging location with two files; and a backend whose write of the
  second staged file fails.
\<close>

definition foo_bar :: "nat \<Rightarrow> InstalledLibrary" where
  "foo_bar patch =
     \<lparr>machineName = ''Foo.Bar'', majorVersion = Num 1, minorVersion = Num 0,
      patchVersion = patch, title = ''Foo Bar'', runnable = True,
      preloadedDependencies = [], editorDependencies = [], dynamicDependencies = [],
      preloadedCss = [], preloadedJs = [''a.js''], metadataSettings = None\<rparr>"

definition foo_bar_key :: libraryKey where
  "foo_bar_key = \<lparr>machineName = ''Foo.Bar'', majorVersion = Num 1, minorVersion = Num 0\<rparr>"

definition empty_repository :: repository where
  "empty_repository = \<lparr>files = (\<lambda>k. []), metadata = (\<lambda>k. None), locks = {}\<rparr>"

definition repository_with_patch_2 :: repository where
  "repository_with_patch_2 =
     \<lparr>files = (\<lambda>k. if k = foo_bar_key then [(''a.js'', ''old a''), (''old.js'', ''old'')] else []),
      metadata = (\<lambda>k. if k = foo_bar_key then Some (foo_bar 2) else None),
      locks = {}\<rparr>"

definition staged_foo_bar :: "nat \<Rightarrow> staging" where
  "staged_foo_bar patch =
     \<lparr>candidate = foo_bar patch, staged = [(''a.js'', ''new a''), (''b.js'', ''new b'')]\<rparr>"

definition second_write_fails :: faults where
  "second_write_fails op = (op = Write foo_bar_key ''b.js'')"

definition no_faults :: faults where
  "no_faults op = False"

section \<open>H5PEditor.listAssets and resolveDependencies\<close>

text \<open>
  The assets of a library: the URLs of its scripts and styles and the translations by
  machine name. \<open>included\<close> is not in the source: it records, in the order of the
  appends, the libraries whose own files were appended to \<open>scripts\<close> and \<open>styles\<close>.
\<close>

record 'j assets =
  scripts :: "string list"
  styles :: "string list"
  translations_map :: "string \<Rightarrow> 'j option"
  included :: "LibraryName list"

text \<open>
  What the hook \<open>options.customization.alterLibraryFiles\<close> returns: an object whose
  \<open>scripts\<close> and \<open>styles\<close> may be missing.
\<close>

record altered_files =
  altered_scripts :: "string list option"
  altered_styles :: "string list option"

text \<open>
  What \<open>listAssets\<close> uses of the editor (\<open>this\<close>): the library manager's
  \<open>getLibrary\<close> and \<open>getLanguage\<close>, which reject with an error or resolve;
  \<open>getAddonsForLibrary\<close>, which asks the library manager and the configuration for the
  addons of a machine name, taken here by its result; the optional hook; the URL
  generator; and \<open>JSON.parse\<close>, which gives \<open>None\<close> when it throws or when the parsed
  value is falsy. The repository does not change while the assets are listed.
\<close>

record 'j editor =
  libraryManager_getLibrary :: "LibraryName \<Rightarrow> error + InstalledLibrary option"
  libraryManager_getLanguage :: "LibraryName \<Rightarrow> string \<Rightarrow> error + string option"
  getAddonsForLibrary :: "string \<Rightarrow> error + LibraryName list"
  alterLibraryFiles :: "(LibraryName \<Rightarrow> string list \<Rightarrow> string list \<Rightarrow> altered_files option) option"
  urlGenerator_libraryFile :: "InstalledLibrary \<Rightarrow> string \<Rightarrow> string"
  JSON_parse :: "string \<Rightarrow> 'j option"

text \<open>
  \<open>listAssets\<close> starts three \<open>resolveDependencies\<close> chains at once
  (\<open>Promise.all\<close>) and all chains of one call of the top-level \<open>listAssets\<close> share the
  object \<open>loaded\<close>. The event loop interleaves them, in an order that depends on when
  the storage answers, so the model is a transition system over configurations and
  every property below is proved for every interleaving.

  A \<open>Chain\<close> is one call of \<open>resolveDependencies\<close>: the dependencies not yet
  shifted, the array \<open>resolved\<close>, and the call of \<open>listAssets\<close> it is waiting for, if
  any. A \<open>Call\<close> is one call of \<open>listAssets\<close> that has marked its key in \<open>loaded\<close>, has
  its library and translation, and waits for its three chains.
\<close>

datatype 'j chain = Chain "LibraryName list" "'j assets list" "'j call option"
  and 'j call = Call LibraryName InstalledLibrary "string option" "'j chain" "'j chain" "'j chain"

text \<open>\<open>language || 'en'\<close>\<close>

definition language_or_en :: "string option \<Rightarrow> string" where
  "language_or_en language = (case language of None \<Rightarrow> ''en'' | Some l \<Rightarrow> if l = [] then ''en'' else l)"

text \<open>
  \<open>await Promise.all([getLibrary(libraryName), getLanguage(libraryName, language || 'en')])\<close>:
  the pair of results, or the error of a call that rejected; when both reject, either
  error may be the one that is thrown.
\<close>

definition lookups :: "'j editor \<Rightarrow> string option \<Rightarrow> LibraryName
    \<Rightarrow> (error + InstalledLibrary option \<times> string option) list" where
  "lookups E language libraryName =
     (case (libraryManager_getLibrary E libraryName,
            libraryManager_getLanguage E libraryName (language_or_en language)) of
        (Inl e1, Inl e2) \<Rightarrow> [Inl e1, Inl e2]
      | (Inl e1, Inr _) \<Rightarrow> [Inl e1]
      | (Inr _, Inl e2) \<Rightarrow> [Inl e2]
      | (Inr library, Inr translation) \<Rightarrow> [Inr (library, translation)])"

text \<open>
  The rest of \<open>listAssets\<close> up to the point where the three chains are started: a
  library that is not there throws \<open>library-missing\<close>, then the addons are asked for.
  The chains work on copies (\<open>slice\<close>) of the three dependency lists.
\<close>

definition launch :: "'j editor \<Rightarrow> LibraryName \<Rightarrow> string
    \<Rightarrow> (error + InstalledLibrary option \<times> string option) \<Rightarrow> error + 'j call" where
  "launch E libraryName key found =
     (case found of
        Inl e \<Rightarrow> Inl e
      | Inr (None, translation) \<Rightarrow> Inl (H5pError ''library-missing'' [(''library'', key)] 404)
      | Inr (Some library, translation) \<Rightarrow>
          (case getAddonsForLibrary E (machineName library) of
             Inl e \<Rightarrow> Inl e
           | Inr addonsForLibrary \<Rightarrow>
               Inr (Call libraryName library translation
                      (Chain (preloadedDependencies library) [] None)
                      (Chain (editorDependencies library) [] None)
                      (Chain addonsForLibrary [] None))))"

text \<open>
  The first lines of \<open>listAssets\<close>: the key is the ubername with a hyphen (which
  throws when the name does not render); a key that is in \<open>loaded\<close> gives \<open>null\<close>;
  otherwise the key is added to \<open>loaded\<close>, and no other code runs between the test and
  the assignment. The result is the list of the possible outcomes, each with the new
  \<open>loaded\<close>. An ubername contains a hyphen, so it is never the name of a property that
  the empty object \<open>{}\<close> inherits, and \<open>key in loaded\<close> is membership in a set.
\<close>

definition begin_listAssets :: "'j editor \<Rightarrow> string option \<Rightarrow> LibraryName \<Rightarrow> string set
    \<Rightarrow> (string set \<times> (error + 'j call option)) list" where
  "begin_listAssets E language libraryName loaded =
     (case toUberName libraryName default_options of
        Inl e \<Rightarrow> [(loaded, Inl e)]
      | Inr key \<Rightarrow>
          if key \<in> loaded then [(loaded, Inr None)]
          else map (\<lambda>found. (insert key loaded, map_sum id Some (launch E libraryName key found)))
                 (lookups E language libraryName))"

definition empty_assets :: "'j assets" where
  "empty_assets = \<lparr>scripts = [], styles = [], translations_map = (\<lambda>k. None), included = []\<rparr>"

text \<open>
  The body of the two nested \<open>forEach\<close>: the scripts and styles of a dependency are
  appended, its translations are copied over.
\<close>

definition add_dependency :: "'j assets \<Rightarrow> 'j assets \<Rightarrow> 'j assets" where
  "add_dependency assets dependency =
     \<lparr>scripts = scripts assets @ scripts dependency,
      styles = styles assets @ styles dependency,
      translations_map = translations_map assets ++ translations_map dependency,
      included = included assets @ included dependency\<rparr>"

text \<open>
  The files of the library itself: the paths of \<open>preloadedJs\<close> and \<open>preloadedCss\<close>,
  or what the hook makes of them; \<open>jsFiles.forEach\<close> on a missing list throws a
  \<open>TypeError\<close>.
\<close>

definition library_files :: "'j editor \<Rightarrow> LibraryName \<Rightarrow> InstalledLibrary \<Rightarrow> error + string list \<times> string list" where
  "library_files E libraryName library =
     (case alterLibraryFiles E of
        None \<Rightarrow> Inr (preloadedJs library, preloadedCss library)
      | Some hook \<Rightarrow>
          (case hook libraryName (preloadedJs library) (preloadedCss library) of
             None \<Rightarrow> Inl TypeError
           | Some alteredFiles \<Rightarrow>
               (case (altered_scripts alteredFiles, altered_styles alteredFiles) of
                  (Some jsFiles, Some cssFiles) \<Rightarrow> Inr (jsFiles, cssFiles)
                | _ \<Rightarrow> Inl TypeError)))"

text \<open>
  The rest of \<open>listAssets\<close> after \<open>await Promise.all\<close> of the three chains:
  \<open>combinedDependencies\<close> holds the three \<open>resolved\<close> arrays.
\<close>

definition finish_listAssets :: "'j editor \<Rightarrow> LibraryName \<Rightarrow> InstalledLibrary \<Rightarrow> string option
    \<Rightarrow> 'j assets list list \<Rightarrow> error + 'j assets" where
  "finish_listAssets E libraryName library translation combinedDependencies =
     (let assets = foldl add_dependency empty_assets (concat combinedDependencies)
      in case library_files E libraryName library of
           Inl e \<Rightarrow> Inl e
         | Inr (jsFiles, cssFiles) \<Rightarrow>
             Inr \<lparr>scripts = scripts assets @ map (urlGenerator_libraryFile E library) jsFiles,
                  styles = styles assets @ map (urlGenerator_libraryFile E library) cssFiles,
                  translations_map =
                    (case (case translation of None \<Rightarrow> None | Some t \<Rightarrow> JSON_parse E t) of
                       None \<Rightarrow> translations_map assets
                     | Some parsedLanguageObject \<Rightarrow>
                         (translations_map assets)(machineName libraryName \<mapsto> parsedLanguageObject)),
                  included = included assets @ [libraryName]\<rparr>)"

text \<open>
  A chain is done when \<open>dependencies.shift()\<close> has returned \<open>undefined\<close>: nothing is
  left and no call is awaited; its promise resolves to \<open>resolved\<close>. A call can go on
  when its three chains are done.
\<close>

fun chain_done :: "'j chain \<Rightarrow> bool" where
  "chain_done (Chain dependencies resolved running) = (dependencies = [] \<and> running = None)"

fun resolved_of :: "'j chain \<Rightarrow> 'j assets list" where
  "resolved_of (Chain dependencies resolved running) = resolved"

fun call_done :: "'j call \<Rightarrow> bool" where
  "call_done (Call libraryName library translation c1 c2 c3) =
     (chain_done c1 \<and> chain_done c2 \<and> chain_done c3)"

fun return_of :: "'j editor \<Rightarrow> 'j call \<Rightarrow> error + 'j assets" where
  "return_of E (Call libraryName library translation c1 c2 c3) =
     finish_listAssets E libraryName library translation [resolved_of c1, resolved_of c2, resolved_of c3]"

text \<open>
  The steps a configuration can take, each with the \<open>loaded\<close> it leaves and either
  the error thrown (which rejects the top-level call) or the new configuration. A
  chain that awaits nothing shifts its next dependency and calls \<open>listAssets\<close> on it:
  \<open>null\<close> is not pushed. A chain whose awaited call has its three chains done pushes
  the assets the call returns. Otherwise the step is a step of one of the chains of the
  awaited call.
\<close>

fun chain_steps :: "'j editor \<Rightarrow> string option \<Rightarrow> string set \<Rightarrow> 'j chain
      \<Rightarrow> (string set \<times> (error + 'j chain)) list"
  and call_steps :: "'j editor \<Rightarrow> string option \<Rightarrow> string set \<Rightarrow> 'j call
      \<Rightarrow> (string set \<times> (error + 'j call)) list" where
  "chain_steps E language loaded (Chain [] resolved None) = []"
| "chain_steps E language loaded (Chain (dependency # dependencies) resolved None) =
     map (\<lambda>(loaded', r).
            (loaded', case r of
                        Inl e \<Rightarrow> Inl e
                      | Inr None \<Rightarrow> Inr (Chain dependencies resolved None)
                      | Inr (Some c) \<Rightarrow> Inr (Chain dependencies resolved (Some c))))
       (begin_listAssets E language dependency loaded)"
| "chain_steps E language loaded (Chain dependencies resolved (Some c)) =
     (if call_done c then
        [(loaded, case return_of E c of
                    Inl e \<Rightarrow> Inl e
                  | Inr assets \<Rightarrow> Inr (Chain dependencies (resolved @ [assets]) None))]
      else map (\<lambda>(loaded', r). (loaded', map_sum id (\<lambda>c'. Chain dependencies resolved (Some c')) r))
             (call_steps E language loaded c))"
| "call_steps E language loaded (Call libraryName library translation c1 c2 c3) =
     map (\<lambda>(loaded', r). (loaded', map_sum id (\<lambda>c. Call libraryName library translation c c2 c3) r))
       (chain_steps E language loaded c1) @
     map (\<lambda>(loaded', r). (loaded', map_sum id (\<lambda>c. Call libraryName library translation c1 c c3) r))
       (chain_steps E language loaded c2) @
     map (\<lambda>(loaded', r). (loaded', map_sum id (\<lambda>c. Call libraryName library translation c1 c2 c) r))
       (chain_steps E language loaded c3)"

text \<open>
  The top-level call \<open>listAssets(libraryName, language)\<close>, with \<open>loaded = {}\<close>: it
  awaits its chains, or has resolved (to assets or \<open>null\<close>), or has rejected.
\<close>

datatype 'j listAssets_state =
    Awaiting "string set" "'j call"
  | Resolved "'j assets option"
  | Rejected error

definition listAssets_start :: "'j editor \<Rightarrow> string option \<Rightarrow> LibraryName \<Rightarrow> 'j listAssets_state list" where
  "listAssets_start E language libraryName =
     map (\<lambda>(loaded, r). case r of
                           Inl e \<Rightarrow> Rejected e
                         | Inr None \<Rightarrow> Resolved None
                         | Inr (Some c) \<Rightarrow> Awaiting loaded c)
       (begin_listAssets E language libraryName {})"

fun listAssets_steps :: "'j editor \<Rightarrow> string option \<Rightarrow> 'j listAssets_state \<Rightarrow> 'j listAssets_state list" where
  "listAssets_steps E language (Awaiting loaded c) =
     (if call_done c then
        [case return_of E c of Inl e \<Rightarrow> Rejected e | Inr assets \<Rightarrow> Resolved (Some assets)]
      else map (\<lambda>(loaded', r). case r of Inl e \<Rightarrow> Rejected e | Inr c' \<Rightarrow> Awaiting loaded' c')
             (call_steps E language loaded c))"
| "listAssets_steps E language (Resolved r) = []"
| "listAssets_steps E language (Rejected e) = []"

text \<open>
  A run of \<open>n\<close> steps: \<open>f 0\<close> is a state the call can start in, and each state is
  followed by one of the states it can step to.
\<close>

definition is_run :: "'j editor \<Rightarrow> string option \<Rightarrow> LibraryName \<Rightarrow> (nat \<Rightarrow> 'j listAssets_state) \<Rightarrow> nat \<Rightarrow> bool" where
  "is_run E language root f n =
     (f 0 \<in> set (listAssets_start E language root) \<and>
      (\<forall>i<n. f (Suc i) \<in> set (listAssets_steps E language (f i))))"

text \<open>
  The dependency graph: the libraries a library declares as preloaded or editor
  dependencies, and its addons; and the libraries that can be reached from a root.
\<close>

definition dependencies_of :: "'j editor \<Rightarrow> LibraryName \<Rightarrow> LibraryName list" where
  "dependencies_of E libraryName =
     (case libraryManager_getLibrary E libraryName of
        Inr (Some library) \<Rightarrow>
          preloadedDependencies library @ editorDependencies library @
          (case getAddonsForLibrary E (machineName library) of Inr addons \<Rightarrow> addons | Inl e \<Rightarrow> [])
      | _ \<Rightarrow> [])"

definition reachable_libraries :: "'j editor \<Rightarrow> LibraryName \<Rightarrow> LibraryName set" where
  "reachable_libraries E root = {x. (root, x) \<in> {(d, y). y \<in> set (dependencies_of E d)}\<^sup>*}"

text \<open>
  The URLs the files of one library give (its own contribution to \<open>scripts\<close> and
  \<open>styles\<close>).
\<close>

definition own_files :: "'j editor \<Rightarrow> LibraryName \<Rightarrow> string list \<times> string list" where
  "own_files E libraryName =
     (case libraryManager_getLibrary E libraryName of
        Inr (Some library) \<Rightarrow>
          (case library_files E libraryName library of
             Inr (jsFiles, cssFiles) \<Rightarrow>
               (map (urlGenerator_libraryFile E library) jsFiles,
                map (urlGenerator_libraryFile E library) cssFiles)
           | Inl e \<Rightarrow> ([], []))
      | _ \<Rightarrow> ([], []))"

subsection \<open>Measures and invariants of a configuration\<close>

text \<open>
  For the proofs: the dependencies not yet shifted anywhere in a configuration, the
  libraries that passed the test of \<open>loaded\<close> (awaited calls and what the resolved
  assets include), and the number of awaited calls.
\<close>

fun pending_chain :: "'j chain \<Rightarrow> LibraryName multiset"
  and pending_call :: "'j call \<Rightarrow> LibraryName multiset" where
  "pending_chain (Chain dependencies resolved running) =
     mset dependencies + (case running of None \<Rightarrow> {#} | Some c \<Rightarrow> pending_call c)"
| "pending_call (Call libraryName library translation c1 c2 c3) =
     pending_chain c1 + pending_chain c2 + pending_chain c3"

fun libs_chain :: "'j chain \<Rightarrow> LibraryName multiset"
  and libs_call :: "'j call \<Rightarrow> LibraryName multiset" where
  "libs_chain (Chain dependencies resolved running) =
     mset (concat (map included resolved)) + (case running of None \<Rightarrow> {#} | Some c \<Rightarrow> libs_call c)"
| "libs_call (Call libraryName library translation c1 c2 c3) =
     add_mset libraryName (libs_chain c1 + libs_chain c2 + libs_chain c3)"

fun running_chain :: "'j chain \<Rightarrow> nat"
  and running_call :: "'j call \<Rightarrow> nat" where
  "running_chain (Chain dependencies resolved running) =
     (case running of None \<Rightarrow> 0 | Some c \<Rightarrow> Suc (running_call c))"
| "running_call (Call libraryName library translation c1 c2 c3) =
     running_chain c1 + running_chain c2 + running_chain c3"

text \<open>
  What one step does to these: a dependency whose key is in \<open>loaded\<close> is dropped; or a
  dependency with a new key is marked and replaced by the dependencies of its library;
  or an awaited call returns.
\<close>

definition abs_step :: "'j editor \<Rightarrow> string set \<Rightarrow> LibraryName multiset \<Rightarrow> LibraryName multiset \<Rightarrow> nat
    \<Rightarrow> string set \<Rightarrow> LibraryName multiset \<Rightarrow> LibraryName multiset \<Rightarrow> nat \<Rightarrow> bool" where
  "abs_step E l P M n l' P' M' n' =
     ((\<exists>d k. toUberName d default_options = Inr k \<and> k \<in> l \<and> l' = l \<and> P = add_mset d P' \<and> M' = M \<and> n' = n)
      \<or> (\<exists>d k P0 library addons.
            toUberName d default_options = Inr k \<and> k \<notin> l \<and> l' = insert k l \<and> P = add_mset d P0 \<and>
            libraryManager_getLibrary E d = Inr (Some library) \<and>
            getAddonsForLibrary E (machineName library) = Inr addons \<and>
            P' = P0 + mset (preloadedDependencies library @ editorDependencies library @ addons) \<and>
            M' = add_mset d M \<and> n' = Suc n)
      \<or> (l' = l \<and> P' = P \<and> M' = M \<and> n = Suc n'))"

definition marked :: "string set \<Rightarrow> LibraryName \<Rightarrow> bool" where
  "marked l x = (case toUberName x default_options of Inr k \<Rightarrow> k \<in> l | Inl e \<Rightarrow> False)"

definition consistent :: "'j editor \<Rightarrow> LibraryName \<Rightarrow> string set \<Rightarrow> LibraryName multiset \<Rightarrow> LibraryName multiset \<Rightarrow> bool" where
  "consistent E root l P M =
     ((\<forall>d \<in># M. marked l d) \<and>
      (\<forall>k \<in> l. \<exists>d \<in># M. toUberName d default_options = Inr k) \<and>
      (\<forall>d. count M d \<le> 1) \<and>
      (\<forall>d \<in># M. \<forall>x \<in> set (dependencies_of E d). x \<in># P \<or> marked l x) \<and>
      (\<forall>d \<in># M + P. d \<in> reachable_libraries E root) \<and>
      root \<in># M)"

definition unmarked :: "LibraryName set \<Rightarrow> string set \<Rightarrow> nat" where
  "unmarked U l = card {d \<in> U. \<not> marked l d}"

definition good :: "'j editor \<Rightarrow> LibraryName \<Rightarrow> 'j listAssets_state \<Rightarrow> bool" where
  "good E root s =
     (case s of Awaiting l c \<Rightarrow> consistent E root l (pending_call c) (libs_call c) | _ \<Rightarrow> True)"

definition rank :: "LibraryName set \<Rightarrow> 'j listAssets_state \<Rightarrow> nat \<times> nat" where
  "rank U s =
     (case s of
        Awaiting l c \<Rightarrow> (unmarked U l, Suc (2 * size (pending_call c) + running_call c))
      | _ \<Rightarrow> (0, 0))"

definition built :: "'j editor \<Rightarrow> 'j assets \<Rightarrow> bool" where
  "built E a =
     (scripts a = concat (map (\<lambda>d. fst (own_files E d)) (included a)) \<and>
      styles a = concat (map (\<lambda>d. snd (own_files E d)) (included a)))"

fun built_chain :: "'j editor \<Rightarrow> 'j chain \<Rightarrow> bool"
  and built_call :: "'j editor \<Rightarrow> 'j call \<Rightarrow> bool" where
  "built_chain E (Chain dependencies resolved running) =
     (list_all (built E) resolved \<and> (case running of None \<Rightarrow> True | Some c \<Rightarrow> built_call E c))"
| "built_call E (Call libraryName library translation c1 c2 c3) =
     (libraryManager_getLibrary E libraryName = Inr (Some library) \<and>
      built_chain E c1 \<and> built_chain E c2 \<and> built_chain E c3)"

definition built_state :: "'j editor \<Rightarrow> 'j listAssets_state \<Rightarrow> bool" where
  "built_state E s = (case s of Awaiting l c \<Rightarrow> built_call E c | Resolved (Some a) \<Rightarrow> built E a | _ \<Rightarrow> True)"

subsection \<open>A dependency cycle\<close>

text \<open>
  Two libraries that depend on each other, and the run in which the first possible
  step is taken each time.
\<close>

fun follow :: "'j editor \<Rightarrow> string option \<Rightarrow> 'j listAssets_state \<Rightarrow> nat list \<Rightarrow> 'j listAssets_state" where
  "follow E language s [] = s"
| "follow E language s (n # ns) =
     (case listAssets_steps E language s of
        [] \<Rightarrow> s
      | x # xs \<Rightarrow> follow E language ((x # xs) ! (n mod length (x # xs))) ns)"

definition lib_A :: LibraryName where
  "lib_A = \<lparr>machineName = ''A'', majorVersion = Num 1, minorVersion = Num 0\<rparr>"

definition lib_B :: LibraryName where
  "lib_B = \<lparr>machineName = ''B'', majorVersion = Num 1, minorVersion = Num 0\<rparr>"

definition installed_library :: "string \<Rightarrow> LibraryName list \<Rightarrow> InstalledLibrary" where
  "installed_library n pre =
     \<lparr>machineName = n, majorVersion = Num 1, minorVersion = Num 0,
      patchVersion = 0, title = n, runnable = False,
      preloadedDependencies = pre, editorDependencies = [], dynamicDependencies = [],
      preloadedCss = [], preloadedJs = [n @ ''.js''], metadataSettings = None\<rparr>"

definition cycle_editor :: "unit editor" where
  "cycle_editor =
     \<lparr>libraryManager_getLibrary = (\<lambda>l.
        if l = lib_A then Inr (Some (installed_library ''A'' [lib_B]))
        else if l = lib_B then Inr (Some (installed_library ''B'' [lib_A]))
        else Inr None),
      libraryManager_getLanguage = (\<lambda>l language. Inr None),
      getAddonsForLibrary = (\<lambda>n. Inr []),
      alterLibraryFiles = None,
      urlGenerator_libraryFile = (\<lambda>library file. machineName library @ ''/'' @ file),
      JSON_parse = (\<lambda>t. None)\<rparr>"

definition cycle_run :: "nat \<Rightarrow> unit listAssets_state" where
  "cycle_run i = follow cycle_editor None (hd (listAssets_start cycle_editor None lib_A)) (replicate i 0)"

definition assets_B :: "unit assets" where
  "assets_B = \<lparr>scripts = [''B/B.js''], styles = [], translations_map = (\<lambda>k. None), included = [lib_B]\<rparr>"

definition assets_A :: "unit assets" where
  "assets_A = \<lparr>scripts = [''B/B.js'', ''A/A.js''], styles = [], translations_map = (\<lambda>k. None),
               included = [lib_B, lib_A]\<rparr>"

section \<open>ValidatorBuilder\<close>

text \<open>
  A rule is a function \<open>(data, pathPrefix, error) => data' | undefined\<close>, possibly
  asynchronous. \<open>await rule(...)\<close> either yields the rule's return value or throws
  what the rule threw (or rejected with); that is the rule's outcome. The data is a
  \<open>'d option\<close>, \<open>None\<close> being \<open>undefined\<close>. The state \<open>'s\<close> is what a rule can change
  besides returning: the contents of the error object handed to every rule, and
  anything else the rule closes over.
\<close>

datatype ('d, 'x, 's) outcome = Thrown 'x 's | Returned "'d option" 's

type_synonym ('d, 'p, 'x, 's) rule = "'d option \<Rightarrow> 'p \<Rightarrow> 's \<Rightarrow> ('d, 'x, 's) outcome"

record ('d, 'p, 'x, 's) ValidatorBuilder =
  rules :: "('d, 'p, 'x, 's) rule list"

definition new_ValidatorBuilder :: "('d, 'p, 'x, 's) ValidatorBuilder" where
  "new_ValidatorBuilder = \<lparr>rules = []\<rparr>"

definition addRule :: "('d, 'p, 'x, 's) ValidatorBuilder \<Rightarrow> ('d, 'p, 'x, 's) rule \<Rightarrow> ('d, 'p, 'x, 's) ValidatorBuilder" where
  "addRule vb rule = vb\<lparr>rules := rules vb @ [rule]\<rparr>"

definition addRuleWhen :: "('d, 'p, 'x, 's) ValidatorBuilder \<Rightarrow> ('d, 'p, 'x, 's) rule \<Rightarrow> bool \<Rightarrow> ('d, 'p, 'x, 's) ValidatorBuilder" where
  "addRuleWhen vb rule condition = (if condition then addRule vb rule else vb)"

text \<open>
  The loop of \<open>validate\<close>. \<open>validate_from i rules returnValue pathPrefix s\<close> runs the
  rules from the \<open>i\<close>-th on and returns, with the outcome, the log of the calls it
  made: for each rule invoked, its index in \<open>this.rules\<close>, the argument and state it
  was called with, and its outcome. The log is not in the source; it records which
  rules the loop invokes.
\<close>

record ('d, 'x, 's) invocation =
  rule_index :: nat
  argument :: "'d option"
  state_before :: 's
  result :: "('d, 'x, 's) outcome"

fun validate_from :: "nat \<Rightarrow> ('d, 'p, 'x, 's) rule list \<Rightarrow> 'd option \<Rightarrow> 'p \<Rightarrow> 's
    \<Rightarrow> ('d, 'x, 's) invocation list \<times> ('d, 'x, 's) outcome" where
  "validate_from i [] returnValue pathPrefix s = ([], Returned returnValue s)"
| "validate_from i (rule # rest) returnValue pathPrefix s =
     (let r = rule returnValue pathPrefix s;
          c = \<lparr>rule_index = i, argument = returnValue, state_before = s, result = r\<rparr>
      in case r of
           Thrown x s' \<Rightarrow> ([c], Thrown x s')
         | Returned returnValue' s' \<Rightarrow>
             if returnValue' = None then ([c], Returned returnValue' s')
             else (let (cs, out) = validate_from (Suc i) rest returnValue' pathPrefix s'
                   in (c # cs, out)))"

definition ValidatorBuilder_validate :: "('d, 'p, 'x, 's) ValidatorBuilder \<Rightarrow> 'd option \<Rightarrow> 'p \<Rightarrow> 's \<Rightarrow> ('d, 'x, 's) outcome" where
  "ValidatorBuilder_validate vb data pathPrefix s = snd (validate_from 0 (rules vb) data pathPrefix s)"

definition calls :: "('d, 'p, 'x, 's) ValidatorBuilder \<Rightarrow> 'd option \<Rightarrow> 'p \<Rightarrow> 's \<Rightarrow> ('d, 'x, 's) invocation list" where
  "calls vb data pathPrefix s = fst (validate_from 0 (rules vb) data pathPrefix s)"

text \<open>
  The run as the specification words it: the rules are fed in list order, each with the
  value the one before returned; the sentinel \<open>undefined\<close> and a thrown error finish the
  run.
\<close>

datatype ('d, 'x, 's) progress = Running "'d option" 's | Finished "('d, 'x, 's) outcome"

definition feed :: "'p \<Rightarrow> ('d, 'x, 's) progress \<Rightarrow> ('d, 'p, 'x, 's) rule \<Rightarrow> ('d, 'x, 's) progress" where
  "feed pathPrefix pr rule =
     (case pr of
        Finished out \<Rightarrow> Finished out
      | Running v s \<Rightarrow>
          (case rule v pathPrefix s of
             Thrown x s' \<Rightarrow> Finished (Thrown x s')
           | Returned None s' \<Rightarrow> Finished (Returned None s')
           | Returned (Some d) s' \<Rightarrow> Running (Some d) s'))"

definition in_order :: "('d, 'p, 'x, 's) rule list \<Rightarrow> 'd option \<Rightarrow> 'p \<Rightarrow> 's \<Rightarrow> ('d, 'x, 's) outcome" where
  "in_order rs data pathPrefix s =
     (case foldl (feed pathPrefix) (Running data s) rs of
        Running v s' \<Rightarrow> Returned v s'
      | Finished out \<Rightarrow> out)"

subsection \<open>Rules of the examples\<close>

definition skip_rest :: "(nat, unit, string, nat) rule" where
  "skip_rest v p s = Returned None s"

definition always_throws :: "(nat, unit, string, nat) rule" where
  "always_throws v p s = Thrown ''never reached'' s"

definition add_one :: "(nat, unit, string, nat) rule" where
  "add_one v p s = Returned (map_option Suc v) (s + 1)"

definition double :: "(nat, unit, string, nat) rule" where
  "double v p s = Returned (map_option (\<lambda>n. 2 * n) v) (s + 10)"

section \<open>Properties of the ubername patterns\<close>

subsection \<open>The backtracking matcher\<close>


lemma plus_then_sound:
  "plus_then C k s = Some (g, x) \<Longrightarrow> \<exists>r. s = g @ r \<and> g \<noteq> [] \<and> list_all C g \<and> k r = Some x"
proof (induction s arbitrary: g)
  case Nil
  then show ?case by simp
next
  case (Cons c s)
  then show ?case
    by (auto split: if_splits option.splits)
qed

subsection \<open>Decimal digits\<close>

lemma code_digit_char: "d < 10 \<Longrightarrow> code (digit_char d) = 48 + d"
  by (simp add: code_def digit_char_def)

lemma is_digit_digit_char: "d < 10 \<Longrightarrow> is_digit (digit_char d)"
  by (simp add: is_digit_def code_digit_char)

lemma digit_val_digit_char: "d < 10 \<Longrightarrow> digit_val (digit_char d) = d"
  by (simp add: digit_val_def code_digit_char)

lemma nat_to_string_digits: "nat_to_string n \<noteq> [] \<and> list_all is_digit (nat_to_string n)"
proof (induction n rule: nat_to_string.induct)
  case (1 n)
  show ?case
  proof (cases "n < 10")
    case True
    then show ?thesis by (simp add: nat_to_string.simps [of n] is_digit_digit_char)
  next
    case False
    with 1 show ?thesis by (simp add: nat_to_string.simps [of n] is_digit_digit_char)
  qed
qed

lemma digits_value_snoc: "digits_value (ds @ [c]) = 10 * digits_value ds + digit_val c"
  by (simp add: digits_value_def)

lemma digits_value_nat_to_string: "digits_value (nat_to_string n) = n"
proof (induction n rule: nat_to_string.induct)
  case (1 n)
  show ?case
  proof (cases "n < 10")
    case True
    then show ?thesis
      by (simp add: nat_to_string.simps [of n] digits_value_def digit_val_digit_char)
  next
    case False
    with 1 show ?thesis
      by (simp add: nat_to_string.simps [of n] digits_value_snoc digit_val_digit_char)
  qed
qed


lemma digit_not_sign: "is_digit c \<Longrightarrow> c \<noteq> CHR ''-'' \<and> c \<noteq> CHR ''+'' \<and> c \<noteq> CHR ''.''"
  by (auto simp: is_digit_def code_def)




lemma match_versions_sound:
  assumes "match_versions s = Some (a, b)"
  shows "s = a @ ''.'' @ b \<and> a \<noteq> [] \<and> list_all is_digit a \<and> b \<noteq> [] \<and> list_all is_digit b"
proof -
  from assms obtain u where
    p: "plus_then is_digit
          (\<lambda>r. case r of c # r' \<Rightarrow> (if c = CHR ''.'' then plus_then is_digit at_end r' else None)
                | [] \<Rightarrow> None) s = Some (a, (b, u))"
    by (auto simp: match_versions_def)
  from plus_then_sound [OF p] obtain r where
    r: "s = a @ r" "a \<noteq> []" "list_all is_digit a"
       "(case r of c # r' \<Rightarrow> (if c = CHR ''.'' then plus_then is_digit at_end r' else None)
                | [] \<Rightarrow> None) = Some (b, u)"
    by blast
  from r(4) obtain r' where r': "r = CHR ''.'' # r'" "plus_then is_digit at_end r' = Some (b, u)"
    by (auto split: list.splits if_splits)
  from plus_then_sound [OF r'(2)] obtain e where
    "r' = b @ e" "b \<noteq> []" "list_all is_digit b" "at_end e = Some u"
    by blast
  then have "r' = b" "b \<noteq> []" "list_all is_digit b"
    by (auto simp: at_end_def split: if_splits)
  with r r' show ?thesis by simp
qed


lemma match_ubername_sound:
  assumes "match_ubername sep s = Some (n, a, b)"
  shows "\<exists>c. s = n @ [c] @ a @ ''.'' @ b \<and> sep c \<and> n \<noteq> [] \<and> list_all is_name_char n
     \<and> a \<noteq> [] \<and> list_all is_digit a \<and> b \<noteq> [] \<and> list_all is_digit b"
proof -
  from plus_then_sound [OF assms [unfolded match_ubername_def]] obtain r where
    r: "s = n @ r" "n \<noteq> []" "list_all is_name_char n"
       "(case r of c # r' \<Rightarrow> (if sep c then match_versions r' else None) | [] \<Rightarrow> None) = Some (a, b)"
    by blast
  from r(4) obtain c r' where r': "r = c # r'" "sep c" "match_versions r' = Some (a, b)"
    by (auto split: list.splits if_splits)
  from match_versions_sound [OF r'(3)] r r' show ?thesis by auto
qed

subsection \<open>Rejected machine names\<close>

lemma split_at_last_unique:
  assumes eq: "xs @ [x] @ ys = xs' @ [x'] @ ys'"
    and ys: "list_all P ys" "list_all P ys'"
    and x: "\<not> P x" "\<not> P x'"
  shows "xs = xs' \<and> x = x' \<and> ys = ys'"
proof -
  from eq have "rev (xs @ [x] @ ys) = rev (xs' @ [x'] @ ys')" by simp
  then have r: "rev ys @ x # rev xs = rev ys' @ x' # rev xs'" by simp
  have "takeWhile P (rev ys @ x # rev xs) = rev ys"
    using ys(1) x(1) by (simp add: takeWhile_tail list_all_iff)
  moreover have "takeWhile P (rev ys' @ x' # rev xs') = rev ys'"
    using ys(2) x(2) by (simp add: takeWhile_tail list_all_iff)
  ultimately have "rev ys = rev ys'" using r by simp
  with r show ?thesis by simp
qed

lemma separator_not_digit: "is_hyphen c \<or> is_space c \<Longrightarrow> \<not> is_digit c"
  by (auto simp: is_hyphen_def is_space_def is_digit_def code_def)


lemma separator_cases: "separator opts c \<Longrightarrow> is_hyphen c \<or> is_space c"
  by (auto simp: separator_def split: if_splits)

lemma match_ubername_illegal_name:
  assumes bad: "c \<in> set name" "\<not> is_name_char c"
    and sep: "\<not> is_digit s"
    and dig: "list_all is_digit a" "list_all is_digit b"
  shows "match_ubername (separator opts) (name @ [s] @ a @ ''.'' @ b) = None"
proof (rule ccontr)
  assume "match_ubername (separator opts) (name @ [s] @ a @ ''.'' @ b) \<noteq> None"
  then obtain n a' b' where m: "match_ubername (separator opts) (name @ [s] @ a @ ''.'' @ b) = Some (n, a', b')"
    by auto
  from match_ubername_sound [OF m] obtain c' where
    u: "name @ [s] @ a @ ''.'' @ b = n @ [c'] @ a' @ ''.'' @ b'"
    and c': "separator opts c'" and n: "list_all is_name_char n"
    and d: "list_all is_digit a'" "list_all is_digit b'"
    by blast
  have dot: "\<not> is_digit CHR ''.''" by (simp add: is_digit_def code_def)
  from u have "(name @ [s] @ a) @ [CHR ''.''] @ b = (n @ [c'] @ a') @ [CHR ''.''] @ b'" by simp
  from split_at_last_unique [OF this dig(2) d(2) dot dot]
  have "name @ [s] @ a = n @ [c'] @ a'" by simp
  from split_at_last_unique [OF this dig(1) d(1) sep separator_not_digit [OF separator_cases [OF c']]]
  have "name = n" by simp
  with n bad show False by (simp add: list_all_iff)
qed

text \<open>
  C8. A string with a character outside \<open>[A-Za-z0-9_.]\<close> is rejected by
  \<open>validateMachineName\<close>; and an ubername made of such a machine name, a separator
  character (any character that is not a digit, so the hyphen and every white space),
  and two digit strings around a dot is rejected by \<open>fromUberName\<close>, under every
  separator policy: no identity is returned.
\<close>

theorem illegal_machine_name_rejected:
  assumes "c \<in> set name" and "\<not> is_name_char c"
  shows "validateMachineName name = Inl (Error (MachineNameIllegal name)) \<and>
    (\<not> is_digit s \<and> list_all is_digit a \<and> list_all is_digit b \<longrightarrow>
       fromUberName (name @ [s] @ a @ ''.'' @ b) opts =
         Inl (if \<not> useHyphen opts \<and> \<not> useWhitespace opts
              then Error MustCallFromUberNameWithOption
              else H5pError ''invalid-ubername-pattern''
                     [(''example'', example opts), (''name'', name @ [s] @ a @ ''.'' @ b)] 400))"
proof (intro conjI impI)
  from assms have "\<not> list_all is_name_char name" by (auto simp: list_all_iff)
  then show "validateMachineName name = Inl (Error (MachineNameIllegal name))"
    by (simp add: validateMachineName_def test_machine_name_def)
next
  assume h: "\<not> is_digit s \<and> list_all is_digit a \<and> list_all is_digit b"
  then have "match_ubername (separator opts) (name @ [s] @ a @ ''.'' @ b) = None"
    using match_ubername_illegal_name [OF assms] by blast
  then show "fromUberName (name @ [s] @ a @ ''.'' @ b) opts =
         Inl (if \<not> useHyphen opts \<and> \<not> useWhitespace opts
              then Error MustCallFromUberNameWithOption
              else H5pError ''invalid-ubername-pattern''
                     [(''example'', example opts), (''name'', name @ [s] @ a @ ''.'' @ b)] 400)"
    by (simp add: fromUberName_def)
qed

theorem illegal_machine_name_rejected_witness:
  "validateMachineName ''H5P Example'' = Inl (Error (MachineNameIllegal ''H5P Example'')) \<and>
   fromUberName ''H5P Example-1.0'' default_options =
     Inl (H5pError ''invalid-ubername-pattern''
            [(''example'', ''H5P.Example-1.0''), (''name'', ''H5P Example-1.0'')] 400)"
  using illegal_machine_name_rejected [of "CHR '' ''" "''H5P Example''" "CHR ''-''" "''1''" "''0''" default_options]
  by (simp add: is_name_char_def is_word_def is_digit_def code_def default_options_def example_def)

subsection \<open>Rendering and parsing back\<close>

lemma number_to_string_nat: "0 \<le> i \<Longrightarrow> number_to_string (Num i) = nat_to_string (nat i)"
  by (simp add: number_to_string_def)





subsection \<open>What the constructor accepts\<close>

lemma is_valid_number_iff: "is_valid_number (string_to_number v) \<longleftrightarrow> the_number (string_to_number v) \<noteq> NaN"
  by (cases v) (simp_all add: is_valid_number_def string_to_number_def the_number_def)

text \<open>
  Against C5 as it is stated: the constructor checks that a version is a number and
  not \<open>NaN\<close>, nothing more. \<open>new LibraryName('H5P.Example', -1, '12abc')\<close> returns
  an identity with the major version \<open>-1\<close> and the minor version \<open>12\<close>.
\<close>

theorem negative_and_partly_numeric_versions_accepted:
  "new_LibraryName ''H5P.Example'' (JNum (Num (- 1))) (JStr ''12abc'')
     = Inr \<lparr>machineName = ''H5P.Example'', majorVersion = Num (- 1), minorVersion = Num 12\<rparr>"
  by code_simp

text \<open>
  C5, as amended. The constructor returns an identity exactly when the machine name is
  legal and both versions, after a string has been replaced by \<open>parseInt\<close> of it,
  are numbers other than \<open>NaN\<close>; the identity then holds these numbers as they are
  (a negative number stays negative). In every other case (a value that is neither a
  number nor a string, \<open>NaN\<close>, a string that does not start with an integer) the
  constructor throws.
\<close>

theorem constructed_versions_are_numbers:
  "new_LibraryName name major minor = Inr l \<longleftrightarrow>
     test_machine_name name \<and>
     the_number (string_to_number major) \<noteq> NaN \<and>
     the_number (string_to_number minor) \<noteq> NaN \<and>
     l = \<lparr>machineName = name, majorVersion = the_number (string_to_number major),
           minorVersion = the_number (string_to_number minor)\<rparr>"
proof (cases "test_machine_name name")
  case False
  then show ?thesis
    by (simp add: new_LibraryName_def validate_def validateMachineName_def)
next
  case True
  then show ?thesis
    by (auto simp: new_LibraryName_def validate_def validateMachineName_def Let_def
        is_valid_number_iff)
qed

theorem constructed_versions_are_numbers_witness:
  "new_LibraryName ''H5P.Example'' (JStr ''1'') (JNum (Num 0))
     = Inr \<lparr>machineName = ''H5P.Example'', majorVersion = Num 1, minorVersion = Num 0\<rparr>"
proof -
  have "test_machine_name ''H5P.Example''"
    by (simp add: test_machine_name_def is_name_char_def is_word_def is_digit_def code_def)
  moreover have "the_number (string_to_number (JStr ''1'')) = Num 1"
    by code_simp
  moreover have "the_number (string_to_number (JNum (Num 0))) = Num 0"
    by (simp add: the_number_def string_to_number_def)
  ultimately show ?thesis
    using constructed_versions_are_numbers [of "''H5P.Example''" "JStr ''1''" "JNum (Num 0)"
        "\<lparr>machineName = ''H5P.Example'', majorVersion = Num 1, minorVersion = Num 0\<rparr>"]
    by simp
qed

section \<open>Separator options\<close>

text \<open>
  C9. With both separator modes disabled, \<open>fromUberName\<close> and \<open>toUberName\<close> throw a
  plain \<open>Error\<close> (a programming error, not the \<open>H5pError\<close> of a rejected ubername),
  whatever the ubername or the library name is.
\<close>

theorem no_separator_is_programming_error:
  "fromUberName ubername \<lparr>useHyphen = False, useWhitespace = False\<rparr>
     = Inl (Error MustCallFromUberNameWithOption)
   \<and> toUberName libraryName \<lparr>useHyphen = False, useWhitespace = False\<rparr>
     = Inl (Error MustSpecifyOption)"
  by (simp add: fromUberName_def toUberName_def)

theorem no_separator_is_programming_error_witness:
  "fromUberName ''H5P.Example-1.0'' \<lparr>useHyphen = False, useWhitespace = False\<rparr>
     = Inl (Error MustCallFromUberNameWithOption)
   \<and> toUberName \<lparr>machineName = ''H5P.Example'', majorVersion = Num 1, minorVersion = Num 0\<rparr>
         \<lparr>useHyphen = False, useWhitespace = False\<rparr>
     = Inl (Error MustSpecifyOption)"
  by (rule no_separator_is_programming_error)

section \<open>Properties of the validation pipeline\<close>

lemma sentinel_ends_log:
  assumes "k < length (fst (validate_from i rs v p s))"
    and "result (fst (validate_from i rs v p s) ! k) = Returned None s'"
  shows "length (fst (validate_from i rs v p s)) = Suc k \<and>
         snd (validate_from i rs v p s) = Returned None s'"
  using assms
proof (induction rs arbitrary: i v s k)
  case Nil
  then show ?case by simp
next
  case (Cons rule rest)
  show ?case
  proof (cases "rule v p s")
    case (Thrown x t)
    with Cons.prems show ?thesis by (simp add: Let_def)
  next
    case (Returned v' t)
    show ?thesis
    proof (cases v')
      case None
      with Returned Cons.prems show ?thesis by (simp add: Let_def)
    next
      case (Some d)
      show ?thesis
      proof (cases k)
        case 0
        with Returned Some Cons.prems show ?thesis
          by (simp add: Let_def split_def)
      next
        case (Suc k')
        with Returned Some Cons.prems
        have "k' < length (fst (validate_from (Suc i) rest (Some d) p t))"
          and "result (fst (validate_from (Suc i) rest (Some d) p t) ! k') = Returned None s'"
          by (simp_all add: Let_def split_def)
        from Cons.IH [OF this] Returned Some Suc show ?thesis
          by (simp add: Let_def split_def)
      qed
    qed
  qed
qed

lemma log_length: "length (fst (validate_from i rs v p s)) \<le> length rs"
  by (induction rs arbitrary: i v s) (auto simp: Let_def split_def split: outcome.splits)

lemma log_entry:
  assumes "k < length (fst (validate_from i rs v p s))"
  shows "rule_index (fst (validate_from i rs v p s) ! k) = i + k \<and>
         result (fst (validate_from i rs v p s) ! k) =
           (rs ! k) (argument (fst (validate_from i rs v p s) ! k)) p
                    (state_before (fst (validate_from i rs v p s) ! k))"
  using assms
proof (induction rs arbitrary: i v s k)
  case Nil
  then show ?case by simp
next
  case (Cons rule rest)
  show ?case
  proof (cases k)
    case 0
    then show ?thesis
      by (simp add: Let_def split_def split: outcome.splits)
  next
    case (Suc k')
    show ?thesis
    proof (cases "rule v p s")
      case (Thrown x t)
      with Cons.prems Suc show ?thesis by (simp add: Let_def)
    next
      case (Returned v' t)
      with Cons.prems Suc obtain d where v': "v' = Some d"
        by (cases v') (simp_all add: Let_def)
      with Returned Cons.prems Suc
      have "k' < length (fst (validate_from (Suc i) rest v' p t))"
        by (simp add: Let_def split_def)
      from Cons.IH [OF this] Returned v' Suc show ?thesis
        by (simp add: Let_def split_def)
    qed
  qed
qed

lemma log_first:
  "0 < length (fst (validate_from i rs v p s)) \<Longrightarrow>
   argument (fst (validate_from i rs v p s) ! 0) = v \<and>
   state_before (fst (validate_from i rs v p s) ! 0) = s"
  by (cases rs) (auto simp: Let_def split_def split: outcome.splits)

lemma log_next:
  assumes "Suc k < length (fst (validate_from i rs v p s))"
  shows "result (fst (validate_from i rs v p s) ! k) =
           Returned (argument (fst (validate_from i rs v p s) ! Suc k))
                    (state_before (fst (validate_from i rs v p s) ! Suc k))"
  using assms
proof (induction rs arbitrary: i v s k)
  case Nil
  then show ?case by simp
next
  case (Cons rule rest)
  show ?case
  proof (cases "rule v p s")
    case (Thrown x t)
    with Cons.prems show ?thesis by (simp add: Let_def)
  next
    case (Returned v' t)
    with Cons.prems obtain d where v': "v' = Some d"
      by (cases v') (simp_all add: Let_def)
    show ?thesis
    proof (cases k)
      case 0
      with Returned v' Cons.prems
      have "0 < length (fst (validate_from (Suc i) rest v' p t))"
        by (simp add: Let_def split_def)
      from log_first [OF this] Returned v' 0 show ?thesis
        by (simp add: Let_def split_def)
    next
      case (Suc k')
      with Returned v' Cons.prems
      have "Suc k' < length (fst (validate_from (Suc i) rest v' p t))"
        by (simp add: Let_def split_def)
      from Cons.IH [OF this] Returned v' Suc show ?thesis
        by (simp add: Let_def split_def)
    qed
  qed
qed

lemma feed_Finished: "foldl (feed p) (Finished out) rs = Finished out"
  by (induction rs) (simp_all add: feed_def)

lemma validate_from_in_order: "snd (validate_from i rs v p s) = in_order rs v p s"
proof (induction rs arbitrary: i v s)
  case Nil
  then show ?case by (simp add: in_order_def)
next
  case (Cons rule rest)
  show ?case
  proof (cases "rule v p s")
    case (Thrown x t)
    then show ?thesis by (simp add: in_order_def feed_def feed_Finished Let_def)
  next
    case (Returned v' t)
    show ?thesis
    proof (cases v')
      case None
      with Returned show ?thesis by (simp add: in_order_def feed_def feed_Finished Let_def)
    next
      case (Some d)
      with Returned Cons.IH [of "Suc i" "Some d" t] show ?thesis
        by (simp add: in_order_def feed_def split_def Let_def)
    qed
  qed
qed

text \<open>
  C6. If the \<open>i\<close>-th call of a run returns the sentinel \<open>undefined\<close>, the log ends
  there: no rule with a higher index is invoked, and the run returns the sentinel (with
  the state that rule left). For the rules \<open>[r1, r2]\<close> with \<open>r1\<close> returning the
  sentinel, \<open>r2\<close> is not invoked.
\<close>

theorem sentinel_stops_pipeline:
  assumes "i < length (calls vb data p s)"
    and "result (calls vb data p s ! i) = Returned None s'"
  shows "length (calls vb data p s) = Suc i \<and>
         (\<forall>c \<in> set (calls vb data p s). rule_index c \<le> i) \<and>
         ValidatorBuilder_validate vb data p s = Returned None s'"
proof -
  have len: "length (calls vb data p s) = Suc i"
    and out: "ValidatorBuilder_validate vb data p s = Returned None s'"
    using sentinel_ends_log [of i 0 "rules vb" data p s s'] assms
    by (simp_all add: calls_def ValidatorBuilder_validate_def)
  have "rule_index c \<le> i" if "c \<in> set (calls vb data p s)" for c
  proof -
    from that obtain k where k: "k < length (calls vb data p s)" "c = calls vb data p s ! k"
      by (auto simp: in_set_conv_nth)
    with log_entry [of k 0 "rules vb" data p s] have "rule_index c = k"
      by (simp add: calls_def)
    with k len show ?thesis by simp
  qed
  with len out show ?thesis by blast
qed

theorem sentinel_stops_pipeline_witness:
  "length (calls (addRule (addRule new_ValidatorBuilder skip_rest) always_throws) (Some 5) () 0) = 1 \<and>
   ValidatorBuilder_validate (addRule (addRule new_ValidatorBuilder skip_rest) always_throws) (Some 5) () 0
     = Returned None 0"
proof -
  let ?vb = "addRule (addRule new_ValidatorBuilder skip_rest) always_throws"
  have c: "calls ?vb (Some 5) () 0 =
             [\<lparr>rule_index = 0, argument = Some 5, state_before = 0, result = Returned None 0\<rparr>]"
    by (simp add: calls_def addRule_def new_ValidatorBuilder_def skip_rest_def Let_def)
  have "0 < length (calls ?vb (Some 5) () 0)"
    and "result (calls ?vb (Some 5) () 0 ! 0) = Returned None 0"
    by (simp_all add: c)
  from sentinel_stops_pipeline [OF this] show ?thesis by simp
qed

text \<open>
  C7. \<open>addRule\<close> appends, and a run invokes the rules in list order: the \<open>k\<close>-th call
  is the call of the \<open>k\<close>-th rule, the first call gets the data and the state the run
  started with, and each later call gets the value and the state the call before it
  returned, so no rule starts before the outcome of the one before is there. The
  outcome of the run is that of feeding the rules from left to right (\<open>in_order\<close>).
\<close>

theorem rules_run_in_insertion_order:
  "rules (addRule vb r) = rules vb @ [r] \<and>
   ValidatorBuilder_validate vb data p s = in_order (rules vb) data p s \<and>
   length (calls vb data p s) \<le> length (rules vb) \<and>
   (\<forall>k < length (calls vb data p s).
      rule_index (calls vb data p s ! k) = k \<and>
      result (calls vb data p s ! k) =
        (rules vb ! k) (argument (calls vb data p s ! k)) p (state_before (calls vb data p s ! k)) \<and>
      (k = 0 \<longrightarrow> argument (calls vb data p s ! k) = data \<and> state_before (calls vb data p s ! k) = s) \<and>
      (Suc k < length (calls vb data p s) \<longrightarrow>
         result (calls vb data p s ! k) =
           Returned (argument (calls vb data p s ! Suc k)) (state_before (calls vb data p s ! Suc k))))"
proof (intro conjI allI impI)
  show "rules (addRule vb r) = rules vb @ [r]"
    by (simp add: addRule_def)
  show "ValidatorBuilder_validate vb data p s = in_order (rules vb) data p s"
    by (simp add: ValidatorBuilder_validate_def validate_from_in_order)
  show "length (calls vb data p s) \<le> length (rules vb)"
    by (simp add: calls_def log_length)
next
  fix k assume k: "k < length (calls vb data p s)"
  with log_entry [of k 0 "rules vb" data p s]
  show "rule_index (calls vb data p s ! k) = k"
    and "result (calls vb data p s ! k) =
        (rules vb ! k) (argument (calls vb data p s ! k)) p (state_before (calls vb data p s ! k))"
    by (simp_all add: calls_def)
  {
    assume "k = 0"
    with k log_first [of 0 "rules vb" data p s]
    show "argument (calls vb data p s ! k) = data" and "state_before (calls vb data p s ! k) = s"
      by (simp_all add: calls_def)
  }
  {
    assume "Suc k < length (calls vb data p s)"
    with log_next [of k 0 "rules vb" data p s]
    show "result (calls vb data p s ! k) =
           Returned (argument (calls vb data p s ! Suc k)) (state_before (calls vb data p s ! Suc k))"
      by (simp add: calls_def)
  }
qed

theorem rules_run_in_insertion_order_witness:
  "ValidatorBuilder_validate (addRule (addRule new_ValidatorBuilder add_one) double) (Some 3) () 0
     = Returned (Some 8) 11 \<and>
   map argument (calls (addRule (addRule new_ValidatorBuilder add_one) double) (Some 3) () 0)
     = [Some 3, Some 4]"
proof -
  let ?vb = "addRule (addRule new_ValidatorBuilder add_one) double"
  have r: "rules ?vb = [add_one, double]"
    by (simp add: addRule_def new_ValidatorBuilder_def)
  have "in_order (rules ?vb) (Some 3) () 0 = Returned (Some 8) 11"
    by (simp add: r in_order_def feed_def add_one_def double_def)
  moreover have "map argument (calls ?vb (Some 3) () 0) = [Some 3, Some 4]"
    by (simp add: calls_def r add_one_def double_def Let_def)
  ultimately show ?thesis
    using rules_run_in_insertion_order [of ?vb add_one "Some 3" "()" 0] by simp
qed


section \<open>Properties of the library overview\<close>

lemma map_throwing_all_right:
  "\<forall>x \<in> set xs. \<exists>y. f x = Inr y \<Longrightarrow> map_throwing f xs = Inr (map (\<lambda>x. projr (f x)) xs)"
  by (induction xs) auto

lemma kept_entries:
  "map the (filter (\<lambda>lib. lib \<noteq> None) (map (overview_of getLibrary language) (map h xs))) =
   concat (map (\<lambda>n. case getLibrary (h n) language of
                        Inr (Some loadedLibrary) \<Rightarrow> [overview_entry loadedLibrary]
                      | _ \<Rightarrow> []) xs)"
  by (induction xs) (auto simp: overview_of_def split: sum.splits option.splits)

text \<open>
  C10. When every ubername of the list is accepted by \<open>fromUberName\<close> under the
  white space policy the function uses, \<open>getLibraryOverview\<close> returns: each ubername
  whose library loads contributes its overview entry, each ubername whose library is
  not installed or whose load raises an error contributes nothing, and the entries
  stand in the order of the list.
\<close>

theorem overview_omits_unloadable_libraries:
  assumes "\<forall>n \<in> set ubernames. \<exists>l. fromUberName n \<lparr>useHyphen = False, useWhitespace = True\<rparr> = Inr l"
  shows "getLibraryOverview getLibrary ubernames language =
     Inr (concat (map (\<lambda>n.
            case getLibrary (projr (fromUberName n \<lparr>useHyphen = False, useWhitespace = True\<rparr>)) language of
              Inr (Some loadedLibrary) \<Rightarrow> [overview_entry loadedLibrary]
            | _ \<Rightarrow> []) ubernames))"
proof -
  have "map_throwing (\<lambda>name. fromUberName name \<lparr>useHyphen = False, useWhitespace = True\<rparr>) ubernames
          = Inr (map (\<lambda>n. projr (fromUberName n \<lparr>useHyphen = False, useWhitespace = True\<rparr>)) ubernames)"
    using assms by (rule map_throwing_all_right)
  then show ?thesis
    unfolding getLibraryOverview_def by (simp only: sum.case kept_entries)
qed


lemma parses:
  "fromUberName ''H5P.Missing 1.0'' \<lparr>useHyphen = False, useWhitespace = True\<rparr>
     = Inr \<lparr>machineName = ''H5P.Missing'', majorVersion = Num 1, minorVersion = Num 0\<rparr>"
  "fromUberName ''H5P.Example 1.0'' \<lparr>useHyphen = False, useWhitespace = True\<rparr>
     = Inr \<lparr>machineName = ''H5P.Example'', majorVersion = Num 1, minorVersion = Num 0\<rparr>"
  "fromUberName ''H5P.Broken 2.1'' \<lparr>useHyphen = False, useWhitespace = True\<rparr>
     = Inr \<lparr>machineName = ''H5P.Broken'', majorVersion = Num 2, minorVersion = Num 1\<rparr>"
  by code_simp+

theorem overview_omits_unloadable_libraries_witness:
  "getLibraryOverview example_getLibrary [''H5P.Missing 1.0'', ''H5P.Example 1.0'', ''H5P.Broken 2.1''] None
     = Inr [overview_entry example_library]"
proof -
  have "\<forall>n \<in> set [''H5P.Missing 1.0'', ''H5P.Example 1.0'', ''H5P.Broken 2.1''].
          \<exists>l. fromUberName n \<lparr>useHyphen = False, useWhitespace = True\<rparr> = Inr l"
    by (simp add: parses)
  from overview_omits_unloadable_libraries [OF this, of example_getLibrary None]
  show ?thesis
    by (simp add: parses example_getLibrary_def)
qed


section \<open>Properties of the installation\<close>

subsection \<open>What a commit can change\<close>

lemma deleted_files [simp]: "deleted k (r\<lparr>files := (files r)(k := x)\<rparr>) = deleted k r"
  by (simp add: deleted_def)

lemma deleted_metadata [simp]: "deleted k (r\<lparr>metadata := (metadata r)(k := x)\<rparr>) = deleted k r"
  by (simp add: deleted_def)

lemma copy_files_frame: "deleted k (snd (copy_files F k fs r)) = deleted k r"
  by (induction fs arbitrary: r) (auto simp: write_file_def)

lemma remove_files_frame: "deleted k (snd (remove_files F k ps r)) = deleted k r"
  by (induction ps arbitrary: r) (auto simp: remove_file_def)

lemma commit_frame: "deleted k (snd (commit F k s r)) = deleted k r"
proof -
  obtain e1 r1 where c: "copy_files F k (staged s) r = (e1, r1)" by force
  obtain e2 r2 where d: "remove_files F k (old_only k s r) r1 = (e2, r2)" by force
  from c copy_files_frame [of k F "staged s" r] have 1: "deleted k r1 = deleted k r" by simp
  from d remove_files_frame [of k F "old_only k s r" r1] have 2: "deleted k r2 = deleted k r1" by simp
  show ?thesis
    using c d 1 2
    by (auto simp: commit_def writeMetadata_def split: option.splits)
qed

lemma install_rolled_back:
  assumes "install F mode k s r = (Inl (StorageFailure op), r')"
  shows "r' = deleted k r"
proof -
  obtain e c where c: "commit F k s r = (e, c)" by force
  with commit_frame [of k F s r] have "deleted k c = deleted k r" by simp
  with assms c show ?thesis
    by (auto simp: install_def delete_library_def split: list.splits option.splits if_splits)
qed

lemma decide_rolled_back:
  assumes "decide F s r = (Inl (StorageFailure op), r')"
  shows "r' = deleted (libraryKey (candidate s)) r"
  using assms
  by (auto simp: decide_def Let_def dest: install_rolled_back split: option.splits if_splits)

lemma deleted_nothing:
  assumes "files r k = []" and "metadata r k = None"
  shows "deleted k r = r"
proof -
  from assms have "(files r)(k := []) = files r" and "(metadata r)(k := None) = metadata r"
    by auto
  then show ?thesis by (simp add: deleted_def)
qed

lemma installFromDirectory_rolled_back:
  assumes "installFromDirectory F s r = (Inl (StorageFailure op), r')"
  shows "r' = deleted (libraryKey (candidate s)) r"
proof -
  let ?lock = "machineName (candidate s)"
  let ?r1 = "r\<lparr>locks := insert ?lock (locks r)\<rparr>"
  from assms have free: "?lock \<notin> locks r"
    by (auto simp: installFromDirectory_def Let_def)
  obtain res r2 where d: "decide F s ?r1 = (res, r2)" by force
  with assms free have res: "res = Inl (StorageFailure op)" and r': "r' = r2\<lparr>locks := locks r2 - {?lock}\<rparr>"
    by (auto simp: installFromDirectory_def Let_def)
  from d res have "r2 = deleted (libraryKey (candidate s)) ?r1"
    by (simp add: decide_rolled_back)
  with r' free show ?thesis
    by (simp add: deleted_def)
qed

subsection \<open>The scenario, evaluated\<close>

lemma commit_copy_failure:
  "fst (copy_files F k (staged s) r) = Some e \<Longrightarrow> fst (commit F k s r) = Some e"
  by (auto simp: commit_def split: prod.splits)

lemma install_commit_failure:
  "missing_files s = [] \<Longrightarrow> fst (commit F k s r) = Some e \<Longrightarrow> \<not> F (Delete k)
   \<Longrightarrow> fst (install F mode k s r) = Inl e"
  by (auto simp: install_def delete_library_def split: prod.splits option.splits)

lemma installFromDirectory_unlocked:
  "machineName (candidate s) \<notin> locks r \<Longrightarrow>
   fst (installFromDirectory F s r)
     = fst (decide F s (r\<lparr>locks := insert (machineName (candidate s)) (locks r)\<rparr>))"
  by (simp add: installFromDirectory_def Let_def split_def)

lemma foo_bar_key: "libraryKey (candidate (staged_foo_bar patch)) = foo_bar_key"
  by (simp add: libraryKey_def foo_bar_def foo_bar_key_def staged_foo_bar_def)

lemma foo_bar_fields:
  "machineName (candidate (staged_foo_bar patch)) = ''Foo.Bar''"
  "patchVersion (candidate (staged_foo_bar patch)) = patch"
  "patchVersion (foo_bar patch) = patch"
  by (simp_all add: staged_foo_bar_def foo_bar_def)

lemma foo_bar_complete: "missing_files (staged_foo_bar patch) = []"
  by (simp add: missing_files_def required_files_def staged_foo_bar_def foo_bar_def)

lemma foo_bar_second_write:
  "fst (copy_files second_write_fails foo_bar_key (staged (staged_foo_bar patch)) r)
     = Some (StorageFailure (Write foo_bar_key ''b.js''))"
  by (simp add: staged_foo_bar_def write_file_def second_write_fails_def)

lemma foo_bar_install_fails:
  "fst (install second_write_fails mode foo_bar_key (staged_foo_bar patch) r)
     = Inl (StorageFailure (Write foo_bar_key ''b.js''))"
  by (intro install_commit_failure commit_copy_failure foo_bar_complete foo_bar_second_write)
     (simp add: second_write_fails_def)

text \<open>
  Against C1 as it is stated: an upgrade whose second file cannot be written. The
  repository held patch 2 of the library before the attempt and holds nothing of it
  after, so it is not in its pre-attempt state.
\<close>

theorem failed_upgrade_removes_library:
  "fst (installFromDirectory second_write_fails (staged_foo_bar 3) repository_with_patch_2)
     = Inl (StorageFailure (Write foo_bar_key ''b.js'')) \<and>
   metadata repository_with_patch_2 foo_bar_key = Some (foo_bar 2) \<and>
   metadata (snd (installFromDirectory second_write_fails (staged_foo_bar 3) repository_with_patch_2))
     foo_bar_key = None \<and>
   snd (installFromDirectory second_write_fails (staged_foo_bar 3) repository_with_patch_2)
     \<noteq> repository_with_patch_2"
proof -
  let ?run = "installFromDirectory second_write_fails (staged_foo_bar 3) repository_with_patch_2"
  have "machineName (candidate (staged_foo_bar 3)) \<notin> locks repository_with_patch_2"
    by (simp add: repository_with_patch_2_def)
  then have 1: "fst ?run = Inl (StorageFailure (Write foo_bar_key ''b.js''))"
    by (simp add: installFromDirectory_unlocked decide_def foo_bar_key readMetadata_def
        foo_bar_install_fails repository_with_patch_2_def foo_bar_fields Let_def)
  have 2: "metadata repository_with_patch_2 foo_bar_key = Some (foo_bar 2)"
    by (simp add: repository_with_patch_2_def)
  have "?run = (Inl (StorageFailure (Write foo_bar_key ''b.js'')), snd ?run)"
    using 1 by (simp add: prod_eq_iff)
  then have "snd ?run = deleted (libraryKey (candidate (staged_foo_bar 3))) repository_with_patch_2"
    by (rule installFromDirectory_rolled_back)
  then have 3: "metadata (snd ?run) foo_bar_key = None"
    by (simp add: deleted_def foo_bar_key)
  with 2 have "snd ?run \<noteq> repository_with_patch_2" by auto
  with 1 2 3 show ?thesis by blast
qed

text \<open>
  C1, as amended. When an install attempt fails during the commit and the rollback's
  delete succeeds, the repository is its pre-attempt state with everything under the
  library's directory key deleted, files and metadata. For a fresh install into a key
  under which nothing was stored this is exactly the pre-attempt state; after a failed
  upgrade the version that was installed is gone, it is not restored.
\<close>

theorem failed_commit_deletes_library:
  assumes "installFromDirectory F s r = (Inl (StorageFailure op), r')"
  shows "r' = deleted (libraryKey (candidate s)) r \<and>
         (files r (libraryKey (candidate s)) = [] \<and> metadata r (libraryKey (candidate s)) = None
            \<longrightarrow> r' = r)"
proof (intro conjI impI)
  show deleted: "r' = deleted (libraryKey (candidate s)) r"
    using assms by (rule installFromDirectory_rolled_back)
  assume "files r (libraryKey (candidate s)) = [] \<and> metadata r (libraryKey (candidate s)) = None"
  then have "deleted (libraryKey (candidate s)) r = r"
    by (simp add: deleted_nothing)
  with deleted show "r' = r" by simp
qed

theorem failed_commit_deletes_library_witness:
  "installFromDirectory second_write_fails (staged_foo_bar 3) empty_repository
     = (Inl (StorageFailure (Write foo_bar_key ''b.js'')), empty_repository)"
proof -
  let ?run = "installFromDirectory second_write_fails (staged_foo_bar 3) empty_repository"
  have "machineName (candidate (staged_foo_bar 3)) \<notin> locks empty_repository"
    by (simp add: empty_repository_def)
  then have "fst ?run = Inl (StorageFailure (Write foo_bar_key ''b.js''))"
    by (simp add: installFromDirectory_unlocked decide_def foo_bar_key readMetadata_def
        foo_bar_install_fails empty_repository_def Let_def)
  then have run: "?run = (Inl (StorageFailure (Write foo_bar_key ''b.js'')), snd ?run)"
    by (simp add: prod_eq_iff)
  have "files empty_repository (libraryKey (candidate (staged_foo_bar 3))) = [] \<and>
        metadata empty_repository (libraryKey (candidate (staged_foo_bar 3))) = None"
    by (simp add: empty_repository_def)
  with failed_commit_deletes_library [OF run] have "snd ?run = empty_repository"
    by blast
  with run show ?thesis by simp
qed

text \<open>
  C2. A candidate whose machine name, major and minor version are those of an installed
  library with a patch version greater than or equal to the candidate's is skipped:
  with the lock acquired, the attempt succeeds with \<open>Skipped\<close> and the repository,
  every file and every metadata record, is what it was before.
\<close>

theorem skipped_is_no_op:
  assumes "metadata r (libraryKey (candidate s)) = Some existing"
    and "patchVersion (candidate s) \<le> patchVersion existing"
    and "machineName (candidate s) \<notin> locks r"
  shows "installFromDirectory F s r = (Inr Skipped, r)"
  using assms
  by (simp add: installFromDirectory_def decide_def readMetadata_def Let_def)

theorem skipped_is_no_op_witness:
  "installFromDirectory no_faults (staged_foo_bar 2) repository_with_patch_2
     = (Inr Skipped, repository_with_patch_2)"
proof (rule skipped_is_no_op)
  show "metadata repository_with_patch_2 (libraryKey (candidate (staged_foo_bar 2))) = Some (foo_bar 2)"
    by (simp add: foo_bar_key repository_with_patch_2_def)
  show "patchVersion (candidate (staged_foo_bar 2)) \<le> patchVersion (foo_bar 2)"
    by (simp add: foo_bar_fields)
  show "machineName (candidate (staged_foo_bar 2)) \<notin> locks repository_with_patch_2"
    by (simp add: repository_with_patch_2_def)
qed


section \<open>Properties of the dependency resolution\<close>

subsection \<open>The ubername is a key\<close>

lemma number_to_string_no_dot: "CHR ''.'' \<notin> set (number_to_string v)"
proof (cases v)
  case NaN
  then show ?thesis by (simp add: number_to_string_def)
next
  case (Num i)
  have "CHR ''.'' \<notin> set (nat_to_string n)" for n
    using nat_to_string_digits [of n] digit_not_sign by (auto simp: list_all_iff)
  with Num show ?thesis by (simp add: number_to_string_def)
qed

lemma version_is_digits:
  assumes "ms @ [CHR ''-''] @ number_to_string v = n @ [c] @ a"
    and "is_hyphen c" and "list_all is_name_char n" and "a \<noteq> []" and "list_all is_digit a"
  shows "ms = n \<and> number_to_string v = a \<and> (\<exists>i\<ge>0. v = Num i)"
proof (cases v)
  case NaN
  have "\<not> is_digit CHR ''N''" by (simp add: is_digit_def code_def)
  moreover have "\<not> is_digit c" using assms(2) by (simp add: separator_not_digit)
  moreover from assms(1) NaN have "(ms @ ''-Na'') @ [CHR ''N''] @ [] = n @ [c] @ a"
    by (simp add: number_to_string_def)
  ultimately have "[] = a"
    using split_at_last_unique [of "ms @ ''-Na''" "CHR ''N''" "[]" n c a is_digit] assms(5)
    by simp
  with assms(4) show ?thesis by simp
next
  case (Num i)
  have c: "\<not> is_digit c" using assms(2) by (simp add: separator_not_digit)
  have h: "\<not> is_digit CHR ''-''" by (simp add: is_digit_def code_def)
  show ?thesis
  proof (cases "i < 0")
    case True
    with Num assms(1) have "(ms @ ''-'') @ [CHR ''-''] @ nat_to_string (nat (- i)) = n @ [c] @ a"
      by (simp add: number_to_string_def)
    from split_at_last_unique [where P = is_digit, OF this _ assms(5) h c]
      nat_to_string_digits [of "nat (- i)"]
    have "ms @ ''-'' = n" by blast
    with assms(3) have "is_name_char CHR ''-''" by (auto simp: list_all_iff)
    then show ?thesis
      by (simp add: is_name_char_def is_word_def is_digit_def code_def)
  next
    case False
    with Num assms(1) have "ms @ [CHR ''-''] @ nat_to_string (nat i) = n @ [c] @ a"
      by (simp add: number_to_string_def)
    from split_at_last_unique [where P = is_digit, OF this _ assms(5) h c]
      nat_to_string_digits [of "nat i"]
    have "ms = n \<and> nat_to_string (nat i) = a" by blast
    with Num False show ?thesis by (simp add: number_to_string_def)
  qed
qed

lemma toUberName_valid:
  assumes "toUberName x default_options = Inr u"
  shows "valid_identity x \<and>
         u = machineName x @ ''-'' @ number_to_string (majorVersion x) @ ''.'' @ number_to_string (minorVersion x)"
proof -
  let ?u = "machineName x @ ''-'' @ number_to_string (majorVersion x) @ ''.'' @ number_to_string (minorVersion x)"
  from assms have u: "u = ?u" and m: "match_ubername is_hyphen ?u \<noteq> None"
    by (auto simp: toUberName_def default_options_def Let_def split: if_splits)
  from m obtain n a b where "match_ubername is_hyphen ?u = Some (n, a, b)" by auto
  from match_ubername_sound [OF this] obtain c where
    eq: "?u = n @ [c] @ a @ ''.'' @ b" and c: "is_hyphen c"
    and n: "n \<noteq> []" "list_all is_name_char n"
    and a: "a \<noteq> []" "list_all is_digit a" and b: "b \<noteq> []" "list_all is_digit b"
    by blast
  have dot: "\<not> (\<lambda>ch. ch \<noteq> CHR ''.'') CHR ''.''" by simp
  have b': "list_all (\<lambda>ch. ch \<noteq> CHR ''.'') b"
    using b(2) digit_not_sign by (auto simp: list_all_iff)
  have m': "list_all (\<lambda>ch. ch \<noteq> CHR ''.'') (number_to_string (minorVersion x))"
    using number_to_string_no_dot [of "minorVersion x"] by (auto simp: list_all_iff)
  from eq have "(machineName x @ ''-'' @ number_to_string (majorVersion x)) @ [CHR ''.''] @
      number_to_string (minorVersion x) = (n @ [c] @ a) @ [CHR ''.''] @ b"
    by simp
  from split_at_last_unique [OF this m' b' dot dot]
  have 1: "machineName x @ [CHR ''-''] @ number_to_string (majorVersion x) = n @ [c] @ a"
    and 2: "number_to_string (minorVersion x) = b"
    by simp_all
  from version_is_digits [OF 1 c n(2) a]
  have 3: "machineName x = n" "\<exists>i\<ge>0. majorVersion x = Num i" by simp_all
  have "[] @ [CHR ''-''] @ number_to_string (minorVersion x) = [] @ [CHR ''-''] @ b"
    using 2 by simp
  from version_is_digits [OF this] b have 4: "\<exists>i\<ge>0. minorVersion x = Num i"
    by (simp add: is_hyphen_def)
  from 3 4 n have "valid_identity x"
    by (auto simp: valid_identity_def test_machine_name_def)
  with u show ?thesis by simp
qed

lemma nat_to_string_inj:
  assumes "nat_to_string m = nat_to_string n"
  shows "m = n"
proof -
  have "m = digits_value (nat_to_string m)" by (simp only: digits_value_nat_to_string)
  also have "\<dots> = digits_value (nat_to_string n)" by (simp only: assms)
  also have "\<dots> = n" by (simp only: digits_value_nat_to_string)
  finally show ?thesis .
qed

lemma toUberName_inj:
  assumes "toUberName x default_options = Inr u" and "toUberName y default_options = Inr u"
  shows "x = y"
proof -
  from toUberName_valid [OF assms(1)] obtain i j where
    x: "test_machine_name (machineName x)" "majorVersion x = Num i" "0 \<le> i"
       "minorVersion x = Num j" "0 \<le> j"
    and ux: "u = machineName x @ ''-'' @ number_to_string (majorVersion x) @ ''.'' @ number_to_string (minorVersion x)"
    by (auto simp: valid_identity_def split: number.splits)
  from toUberName_valid [OF assms(2)] obtain i' j' where
    y: "test_machine_name (machineName y)" "majorVersion y = Num i'" "0 \<le> i'"
       "minorVersion y = Num j'" "0 \<le> j'"
    and uy: "u = machineName y @ ''-'' @ number_to_string (majorVersion y) @ ''.'' @ number_to_string (minorVersion y)"
    by (auto simp: valid_identity_def split: number.splits)
  have dot: "\<not> is_digit CHR ''.''" and h: "\<not> is_digit CHR ''-''"
    by (simp_all add: is_digit_def code_def)
  from ux uy x y have
    "(machineName x @ ''-'' @ nat_to_string (nat i)) @ [CHR ''.''] @ nat_to_string (nat j) =
     (machineName y @ ''-'' @ nat_to_string (nat i')) @ [CHR ''.''] @ nat_to_string (nat j')"
    by (simp add: number_to_string_nat)
  from split_at_last_unique [where P = is_digit, OF this _ _ dot dot]
    nat_to_string_digits [of "nat j"] nat_to_string_digits [of "nat j'"]
  have 1: "machineName x @ [CHR ''-''] @ nat_to_string (nat i) = machineName y @ [CHR ''-''] @ nat_to_string (nat i')"
    and 2: "nat_to_string (nat j) = nat_to_string (nat j')"
    by blast+
  from split_at_last_unique [where P = is_digit, OF 1 _ _ h h]
    nat_to_string_digits [of "nat i"] nat_to_string_digits [of "nat i'"]
  have 3: "machineName x = machineName y" "nat_to_string (nat i) = nat_to_string (nat i')"
    by blast+
  from 2 3 x y have "machineName x = machineName y" "majorVersion x = majorVersion y"
    "minorVersion x = minorVersion y"
    by (auto dest!: nat_to_string_inj)
  then show ?thesis by simp
qed

subsection \<open>Steps of a configuration\<close>

lemma abs_step_frame:
  assumes "abs_step E l P M n l' P' M' n'"
  shows "abs_step E l (P + R) (M + S) (n + m) l' (P' + R) (M' + S) (n' + m)"
  using assms unfolding abs_step_def
  by (auto simp: ac_simps)

lemma begin_null:
  assumes "(l', Inr None) \<in> set (begin_listAssets E language d l)"
  shows "\<exists>k. toUberName d default_options = Inr k \<and> k \<in> l \<and> l' = l"
  using assms
  by (auto simp: begin_listAssets_def launch_def map_sum_def
      split: sum.splits if_splits option.splits prod.splits)

lemma begin_call:
  assumes "(l', Inr (Some c)) \<in> set (begin_listAssets E language d l)"
  shows "\<exists>k library translation addons.
           toUberName d default_options = Inr k \<and> k \<notin> l \<and> l' = insert k l \<and>
           libraryManager_getLibrary E d = Inr (Some library) \<and>
           getAddonsForLibrary E (machineName library) = Inr addons \<and>
           c = Call d library translation (Chain (preloadedDependencies library) [] None)
                 (Chain (editorDependencies library) [] None) (Chain addons [] None)"
  using assms
  by (auto simp: begin_listAssets_def launch_def map_sum_def lookups_def
      split: sum.splits if_splits option.splits prod.splits)

lemma included_foldl:
  "included (foldl add_dependency a rs) = included a @ concat (map included rs)"
  by (induction rs arbitrary: a) (simp_all add: add_dependency_def)

lemma chain_done_facts:
  "chain_done t \<Longrightarrow> pending_chain t = {#} \<and> running_chain t = 0 \<and>
     libs_chain t = mset (concat (map included (resolved_of t)))"
  by (cases t) auto

lemma call_done_facts:
  "call_done c \<Longrightarrow> pending_call c = {#} \<and> running_call c = 0"
  by (cases c) (auto simp: chain_done_facts)

lemma return_included:
  assumes "call_done c" and "return_of E c = Inr a"
  shows "mset (included a) = libs_call c"
proof (cases c)
  case (Call d library translation c1 c2 c3)
  with assms(1) have d: "chain_done c1" "chain_done c2" "chain_done c3" by simp_all
  from assms(2) Call have
    "included a = concat (map included (resolved_of c1 @ resolved_of c2 @ resolved_of c3)) @ [d]"
    by (auto simp: finish_listAssets_def Let_def included_foldl empty_assets_def
        split: sum.splits prod.splits)
  with Call d show ?thesis
    by (simp add: chain_done_facts)
qed

lemma steps_simulate:
  "(l', Inr t') \<in> set (chain_steps E language l t) \<Longrightarrow>
     abs_step E l (pending_chain t) (libs_chain t) (running_chain t)
                l' (pending_chain t') (libs_chain t') (running_chain t')"
  "(l', Inr c') \<in> set (call_steps E language l c) \<Longrightarrow>
     abs_step E l (pending_call c) (libs_call c) (running_call c)
                l' (pending_call c') (libs_call c') (running_call c')"
proof (induction E language l t and E language l c arbitrary: l' t' and l' c'
    rule: chain_steps_call_steps.induct)
  case (1 E language loaded resolved)
  then show ?case by simp
next
  case (2 E language loaded d ds resolved)
  from "2.prems" obtain r where
    r: "(l', r) \<in> set (begin_listAssets E language d loaded)"
    and t': "Inr t' = (case r of Inl e \<Rightarrow> Inl e
                      | Inr None \<Rightarrow> Inr (Chain ds resolved None)
                      | Inr (Some c) \<Rightarrow> Inr (Chain ds resolved (Some c)))"
    by auto
  show ?case
  proof (cases r)
    case (Inl e)
    with t' show ?thesis by simp
  next
    case (Inr found)
    show ?thesis
    proof (cases found)
      case None
      with Inr r begin_null [of l' E language d loaded] t' show ?thesis
        by (auto simp: abs_step_def)
    next
      case (Some c)
      with Inr r begin_call [of l' c E language d loaded] obtain k library translation addons where
        "toUberName d default_options = Inr k" "k \<notin> loaded" "l' = insert k loaded"
        "libraryManager_getLibrary E d = Inr (Some library)"
        "getAddonsForLibrary E (machineName library) = Inr addons"
        "c = Call d library translation (Chain (preloadedDependencies library) [] None)
                 (Chain (editorDependencies library) [] None) (Chain addons [] None)"
        by blast
      with Inr Some t' show ?thesis
        unfolding abs_step_def
        by (intro disjI2 disjI1) (auto simp: ac_simps)
    qed
  qed
next
  case (3 E language loaded ds resolved c)
  show ?case
  proof (cases "call_done c")
    case True
    with "3.prems" obtain a where a: "return_of E c = Inr a"
      and t': "t' = Chain ds (resolved @ [a]) None" and l': "l' = loaded"
      by (auto split: sum.splits)
    from True a t' l' show ?thesis
      by (simp add: abs_step_def call_done_facts return_included)
  next
    case False
    with "3.prems" obtain c' where c': "(l', Inr c') \<in> set (call_steps E language loaded c)"
      and t': "t' = Chain ds resolved (Some c')"
      by (auto simp: map_sum_def split: sum.splits)
    from "3.IH" [OF False c']
    have "abs_step E loaded (pending_call c) (libs_call c) (running_call c)
            l' (pending_call c') (libs_call c') (running_call c')" .
    from abs_step_frame [OF this, of "mset ds" "mset (concat (map included resolved))" 1] t'
    show ?thesis by (simp add: ac_simps)
  qed
next
  case (4 E language loaded d library translation c1 c2 c3)
  from "4.prems" consider
    (a) t where "(l', Inr t) \<in> set (chain_steps E language loaded c1)"
      "c' = Call d library translation t c2 c3"
  | (b) t where "(l', Inr t) \<in> set (chain_steps E language loaded c2)"
      "c' = Call d library translation c1 t c3"
  | (c) t where "(l', Inr t) \<in> set (chain_steps E language loaded c3)"
      "c' = Call d library translation c1 c2 t"
    by (auto simp: map_sum_def split: sum.splits)
  then show ?case
  proof cases
    case a
    from abs_step_frame [OF "4.IH"(1) [OF a(1)],
        of "pending_chain c2 + pending_chain c3" "add_mset d (libs_chain c2 + libs_chain c3)"
           "running_chain c2 + running_chain c3"] a(2)
    show ?thesis by (simp add: ac_simps)
  next
    case b
    from abs_step_frame [OF "4.IH"(2) [OF b(1)],
        of "pending_chain c1 + pending_chain c3" "add_mset d (libs_chain c1 + libs_chain c3)"
           "running_chain c1 + running_chain c3"] b(2)
    show ?thesis by (simp add: ac_simps)
  next
    case c
    from abs_step_frame [OF "4.IH"(3) [OF c(1)],
        of "pending_chain c1 + pending_chain c2" "add_mset d (libs_chain c1 + libs_chain c2)"
           "running_chain c1 + running_chain c2"] c(2)
    show ?thesis by (simp add: ac_simps)
  qed
qed

subsection \<open>Invariants\<close>

lemma marked_insert: "marked l x \<Longrightarrow> marked (insert k l) x"
  by (auto simp: marked_def split: sum.splits)

lemma marked_key: "toUberName d default_options = Inr k \<Longrightarrow> marked l d \<longleftrightarrow> k \<in> l"
  by (simp add: marked_def)

lemma reachable_step:
  "d \<in> reachable_libraries E root \<Longrightarrow> x \<in> set (dependencies_of E d) \<Longrightarrow> x \<in> reachable_libraries E root"
  by (auto simp: reachable_libraries_def intro: rtrancl_into_rtrancl)

lemma dependencies_of_installed:
  "libraryManager_getLibrary E d = Inr (Some library) \<Longrightarrow>
   getAddonsForLibrary E (machineName library) = Inr addons \<Longrightarrow>
   dependencies_of E d = preloadedDependencies library @ editorDependencies library @ addons"
  by (simp add: dependencies_of_def)

lemma abs_step_consistent:
  assumes step: "abs_step E l P M n l' P' M' n'" and inv: "consistent E root l P M"
  shows "consistent E root l' P' M'"
proof -
  from inv have
    i1: "\<forall>d \<in># M. marked l d"
    and i2: "\<forall>k \<in> l. \<exists>d \<in># M. toUberName d default_options = Inr k"
    and i3: "\<forall>d. count M d \<le> 1"
    and i4: "\<forall>d \<in># M. \<forall>x \<in> set (dependencies_of E d). x \<in># P \<or> marked l x"
    and i5: "\<forall>d \<in># M + P. d \<in> reachable_libraries E root"
    and i6: "root \<in># M"
    by (simp_all add: consistent_def)
  from step consider
    (skip) d k where "toUberName d default_options = Inr k" "k \<in> l" "l' = l" "P = add_mset d P'"
      "M' = M" "n' = n"
  | (start) d k P0 library addons where
      "toUberName d default_options = Inr k" "k \<notin> l" "l' = insert k l" "P = add_mset d P0"
      "libraryManager_getLibrary E d = Inr (Some library)"
      "getAddonsForLibrary E (machineName library) = Inr addons"
      "P' = P0 + mset (preloadedDependencies library @ editorDependencies library @ addons)"
      "M' = add_mset d M" "n' = Suc n"
  | (finish) "l' = l" "P' = P" "M' = M" "n = Suc n'"
    unfolding abs_step_def by blast
  then show ?thesis
  proof cases
    case skip
    have keep: "x \<in># P' \<or> marked l x" if "x \<in># P \<or> marked l x" for x
      using that skip(1,2,4) by (auto simp: marked_key)
    have c4: "\<forall>y \<in># M. \<forall>x \<in> set (dependencies_of E y). x \<in># P' \<or> marked l x"
    proof (intro ballI)
      fix y x assume "y \<in># M" and "x \<in> set (dependencies_of E y)"
      with i4 have "x \<in># P \<or> marked l x" by blast
      then show "x \<in># P' \<or> marked l x" by (rule keep)
    qed
    have c5: "\<forall>x \<in># M + P'. x \<in> reachable_libraries E root"
      using i5 skip(4) by simp
    from i1 i2 i3 c4 c5 i6 skip(3,5) show ?thesis
      by (simp add: consistent_def)
  next
    case start
    have deps: "dependencies_of E d = preloadedDependencies library @ editorDependencies library @ addons"
      using start(5,6) by (rule dependencies_of_installed)
    have d_new: "d \<notin># M"
    proof
      assume "d \<in># M"
      with i1 have "marked l d" by blast
      with start(1,2) show False by (simp add: marked_key)
    qed
    have d_reach: "d \<in> reachable_libraries E root"
      using i5 start(4) by simp
    have c1: "\<forall>x \<in># M'. marked l' x"
      using i1 start(1,3,8) by (auto simp: marked_key marked_insert)
    have c2: "\<forall>k' \<in> l'. \<exists>x \<in># M'. toUberName x default_options = Inr k'"
      using i2 start(1,3,8) by auto
    have c3: "\<forall>x. count M' x \<le> 1"
      using i3 d_new start(8) by (auto simp: not_in_iff)
    have c4: "\<forall>y \<in># M'. \<forall>x \<in> set (dependencies_of E y). x \<in># P' \<or> marked l' x"
    proof (intro ballI)
      fix y x assume y: "y \<in># M'" and x: "x \<in> set (dependencies_of E y)"
      show "x \<in># P' \<or> marked l' x"
      proof (cases "y = d")
        case True
        with x deps start(7) show ?thesis by auto
      next
        case False
        with y start(8) have "y \<in># M" by simp
        with i4 x have "x \<in># P \<or> marked l x" by blast
        then show ?thesis
          using start(1,3,4,7) by (auto simp: marked_key marked_insert)
      qed
    qed
    have c5: "\<forall>x \<in># M' + P'. x \<in> reachable_libraries E root"
    proof
      fix x assume "x \<in># M' + P'"
      then consider "x \<in># M" | "x = d" | "x \<in># P0" | "x \<in> set (dependencies_of E d)"
        using start(7,8) deps by auto
      then show "x \<in> reachable_libraries E root"
      proof cases
        case 1 with i5 show ?thesis by simp
      next
        case 2 with d_reach show ?thesis by simp
      next
        case 3 with i5 start(4) show ?thesis by simp
      next
        case 4 with d_reach show ?thesis by (rule reachable_step)
      qed
    qed
    from c1 c2 c3 c4 c5 i6 start(8) show ?thesis
      by (simp add: consistent_def)
  next
    case finish
    with inv show ?thesis by simp
  qed
qed

lemma abs_step_decreases:
  assumes step: "abs_step E l P M n l' P' M' n'"
    and fin: "finite U" and sub: "set_mset P \<subseteq> U"
  shows "unmarked U l' < unmarked U l \<or>
         (unmarked U l' = unmarked U l \<and> 2 * size P' + n' < 2 * size P + n)"
proof -
  from step consider
    (skip) d where "l' = l" "P = add_mset d P'" "n' = n"
  | (start) d k where "toUberName d default_options = Inr k" "k \<notin> l" "l' = insert k l" "d \<in># P"
  | (finish) "l' = l" "P' = P" "n = Suc n'"
    unfolding abs_step_def by fastforce
  then show ?thesis
  proof cases
    case skip
    then show ?thesis by simp
  next
    case start
    have "{x \<in> U. \<not> marked l' x} \<subset> {x \<in> U. \<not> marked l x}"
    proof
      show "{x \<in> U. \<not> marked l' x} \<subseteq> {x \<in> U. \<not> marked l x}"
        using start(3) by (auto simp: marked_insert)
      have "d \<in> {x \<in> U. \<not> marked l x}" "d \<notin> {x \<in> U. \<not> marked l' x}"
        using start sub by (auto simp: marked_key)
      then show "{x \<in> U. \<not> marked l' x} \<noteq> {x \<in> U. \<not> marked l x}" by blast
    qed
    with fin have "unmarked U l' < unmarked U l"
      unfolding unmarked_def by (intro psubset_card_mono) auto
    then show ?thesis by simp
  next
    case finish
    then show ?thesis by simp
  qed
qed

lemma root_reachable: "root \<in> reachable_libraries E root"
  by (simp add: reachable_libraries_def)

lemma start_good:
  assumes "s \<in> set (listAssets_start E language root)"
  shows "good E root s"
proof (cases s)
  case (Awaiting l c)
  with assms have "(l, Inr (Some c)) \<in> set (begin_listAssets E language root {})"
    by (auto simp: listAssets_start_def split: sum.splits option.splits)
  from begin_call [OF this] obtain k library translation addons where
    k: "toUberName root default_options = Inr k" "l = {k}"
    and lib: "libraryManager_getLibrary E root = Inr (Some library)"
      "getAddonsForLibrary E (machineName library) = Inr addons"
    and c: "c = Call root library translation (Chain (preloadedDependencies library) [] None)
                 (Chain (editorDependencies library) [] None) (Chain addons [] None)"
    by auto
  have deps: "dependencies_of E root = preloadedDependencies library @ editorDependencies library @ addons"
    using lib by (rule dependencies_of_installed)
  have P: "pending_call c = mset (dependencies_of E root)" and M: "libs_call c = {#root#}"
    using c deps by simp_all
  have "consistent E root l (mset (dependencies_of E root)) {#root#}"
    unfolding consistent_def using k
    by (auto simp: marked_key root_reachable intro: reachable_step [OF root_reachable])
  with Awaiting P M show ?thesis by (simp add: good_def)
qed (simp_all add: good_def)

lemma step_good:
  assumes "good E root s" and "s' \<in> set (listAssets_steps E language s)"
  shows "good E root s'"
proof (cases s')
  case (Awaiting l' c')
  with assms(2) obtain l c where s: "s = Awaiting l c" and nd: "\<not> call_done c"
    and c': "(l', Inr c') \<in> set (call_steps E language l c)"
    by (cases s) (auto split: if_splits sum.splits)
  from steps_simulate(2) [OF c'] assms(1) s Awaiting show ?thesis
    by (auto simp: good_def intro: abs_step_consistent)
qed (simp_all add: good_def)

lemma step_rank:
  assumes fin: "finite (reachable_libraries E root)"
    and good: "good E root s" and step: "s' \<in> set (listAssets_steps E language s)"
  shows "(rank (reachable_libraries E root) s', rank (reachable_libraries E root) s)
           \<in> less_than <*lex*> less_than"
proof -
  from step obtain l c where s: "s = Awaiting l c" by (cases s) auto
  show ?thesis
  proof (cases s')
    case (Awaiting l' c')
    with step s have c': "(l', Inr c') \<in> set (call_steps E language l c)"
      by (auto split: if_splits sum.splits)
    from good s have "set_mset (pending_call c) \<subseteq> reachable_libraries E root"
      by (auto simp: good_def consistent_def)
    from abs_step_decreases [OF steps_simulate(2) [OF c'] fin this] s Awaiting
    show ?thesis by (auto simp: rank_def)
  next
    case (Resolved r)
    with s show ?thesis by (cases "unmarked (reachable_libraries E root) l") (simp_all add: rank_def)
  next
    case (Rejected e)
    with s show ?thesis by (cases "unmarked (reachable_libraries E root) l") (simp_all add: rank_def)
  qed
qed

lemma run_good:
  assumes "is_run E language root f n" and "i \<le> n"
  shows "good E root (f i)"
  using assms(2)
proof (induction i)
  case 0
  from assms(1) have "f 0 \<in> set (listAssets_start E language root)"
    by (simp add: is_run_def)
  then show ?case by (rule start_good)
next
  case (Suc i)
  with assms(1) have "f (Suc i) \<in> set (listAssets_steps E language (f i))"
    by (simp add: is_run_def)
  with Suc show ?case by (auto intro: step_good)
qed

lemma no_infinite_run:
  assumes fin: "finite (reachable_libraries E root)"
  shows "\<not> (\<exists>f. \<forall>n. is_run E language root f n)"
proof
  assume "\<exists>f. \<forall>n. is_run E language root f n"
  then obtain f where run: "\<And>n. is_run E language root f n" by blast
  let ?r = "rank (reachable_libraries E root)"
  have "(?r (f (Suc i)), ?r (f i)) \<in> less_than <*lex*> less_than" for i
  proof (rule step_rank [OF fin])
    show "good E root (f i)" using run [of i] by (rule run_good) simp
    show "f (Suc i) \<in> set (listAssets_steps E language (f i))"
      using run [of "Suc i"] by (simp add: is_run_def)
  qed
  then have "\<forall>i. ((?r \<circ> f) (Suc i), (?r \<circ> f) i) \<in> less_than <*lex*> less_than" by simp
  moreover have "wf (less_than <*lex*> less_than :: ((nat \<times> nat) \<times> (nat \<times> nat)) set)"
    by (rule wf_lex_prod) simp_all
  ultimately show False
    unfolding wf_iff_no_infinite_down_chain by blast
qed

lemma steps_nonempty:
  "\<not> chain_done t \<Longrightarrow> chain_steps E language l t \<noteq> []"
  "\<not> call_done c \<Longrightarrow> call_steps E language l c \<noteq> []"
proof (induction E language l t and E language l c rule: chain_steps_call_steps.induct)
  case (2 E language loaded d ds resolved)
  have "lookups E language d \<noteq> []"
    by (simp add: lookups_def split: sum.splits prod.splits)
  then show ?case
    by (simp add: begin_listAssets_def split: sum.splits)
next
  case (4 E language loaded d library translation c1 c2 c3)
  then show ?case by auto
qed simp_all

lemma settled_iff:
  "listAssets_steps E language s = [] \<longleftrightarrow> (\<exists>r. s = Resolved r) \<or> (\<exists>e. s = Rejected e)"
  by (cases s) (simp_all add: steps_nonempty)

lemma count_le_1_distinct: "\<forall>x. count (mset xs) x \<le> 1 \<Longrightarrow> distinct xs"
proof (induction xs)
  case Nil
  then show ?case by simp
next
  case (Cons a xs)
  from Cons.prems have "count (mset (a # xs)) a \<le> 1" by blast
  then have a: "a \<notin> set xs" by (simp add: count_eq_zero_iff)
  have "\<forall>x. count (mset xs) x \<le> 1"
  proof
    fix x
    from Cons.prems have "count (mset (a # xs)) x \<le> 1" by blast
    moreover have "count (mset xs) x \<le> count (mset (a # xs)) x" by simp
    ultimately show "count (mset xs) x \<le> 1" by (rule order_trans [rotated])
  qed
  with Cons.IH a show ?case by simp
qed

lemma resolved_includes_once:
  assumes good: "good E root (Awaiting l c)" and fin: "call_done c" and ret: "return_of E c = Inr a"
  shows "distinct (included a) \<and> set (included a) = reachable_libraries E root"
proof -
  from good have inv: "consistent E root l (pending_call c) (libs_call c)"
    by (simp add: good_def)
  from fin have P: "pending_call c = {#}" by (simp add: call_done_facts)
  from return_included [OF fin ret] have M: "libs_call c = mset (included a)" by simp
  from inv P M have
    i1: "\<forall>d \<in> set (included a). marked l d"
    and i2: "\<forall>k \<in> l. \<exists>d \<in> set (included a). toUberName d default_options = Inr k"
    and i3: "\<forall>d. count (mset (included a)) d \<le> 1"
    and i4: "\<forall>d \<in> set (included a). \<forall>x \<in> set (dependencies_of E d). marked l x"
    and i5: "\<forall>d \<in> set (included a). d \<in> reachable_libraries E root"
    and i6: "root \<in> set (included a)"
    by (simp_all add: consistent_def)
  have "distinct (included a)"
    using i3 by (rule count_le_1_distinct)
  moreover have "x \<in> set (included a)" if "x \<in> reachable_libraries E root" for x
  proof -
    from that have "(root, x) \<in> {(d, y). y \<in> set (dependencies_of E d)}\<^sup>*"
      by (simp add: reachable_libraries_def)
    then show ?thesis
    proof (induction rule: rtrancl_induct)
      case base
      from i6 show ?case .
    next
      case (step y z)
      then have "z \<in> set (dependencies_of E y)" by simp
      with i4 step.IH have "marked l z" by blast
      then obtain k where k: "toUberName z default_options = Inr k" "k \<in> l"
        by (auto simp: marked_def split: sum.splits)
      with i2 obtain d where "d \<in> set (included a)" "toUberName d default_options = Inr k"
        by blast
      with k(1) toUberName_inj [of z k d] show ?case by simp
    qed
  qed
  ultimately show ?thesis using i5 by blast
qed

subsection \<open>Scripts and styles\<close>

lemma built_foldl:
  "list_all (built E) rs \<Longrightarrow> built E a \<Longrightarrow> built E (foldl add_dependency a rs)"
  by (induction rs arbitrary: a) (simp_all add: built_def add_dependency_def)

lemma built_empty: "built E empty_assets"
  by (simp add: built_def empty_assets_def)

lemma return_built:
  assumes "built_call E c" and "return_of E c = Inr a"
  shows "built E a"
proof (cases c)
  case (Call d library translation c1 c2 c3)
  with assms(1) have lib: "libraryManager_getLibrary E d = Inr (Some library)"
    and rs: "list_all (built E) (resolved_of c1 @ resolved_of c2 @ resolved_of c3)"
    by (cases c1; cases c2; cases c3; simp)+
  let ?assets = "foldl add_dependency empty_assets (resolved_of c1 @ resolved_of c2 @ resolved_of c3)"
  have b: "built E ?assets" using rs built_empty by (rule built_foldl)
  from assms(2) Call obtain jsFiles cssFiles where
    f: "library_files E d library = Inr (jsFiles, cssFiles)"
    and a: "scripts a = scripts ?assets @ map (urlGenerator_libraryFile E library) jsFiles"
      "styles a = styles ?assets @ map (urlGenerator_libraryFile E library) cssFiles"
      "included a = included ?assets @ [d]"
    by (auto simp: finish_listAssets_def Let_def split: sum.splits prod.splits)
  from lib f have "own_files E d = (map (urlGenerator_libraryFile E library) jsFiles,
      map (urlGenerator_libraryFile E library) cssFiles)"
    by (simp add: own_files_def)
  with a b show ?thesis by (simp add: built_def)
qed

lemma steps_built:
  "(l', Inr t') \<in> set (chain_steps E language l t) \<Longrightarrow> built_chain E t \<Longrightarrow> built_chain E t'"
  "(l', Inr c') \<in> set (call_steps E language l c) \<Longrightarrow> built_call E c \<Longrightarrow> built_call E c'"
proof (induction E language l t and E language l c arbitrary: l' t' and l' c'
    rule: chain_steps_call_steps.induct)
  case (1 E language loaded resolved)
  then show ?case by simp
next
  case (2 E language loaded d ds resolved)
  from "2.prems"(1) obtain r where
    r: "(l', r) \<in> set (begin_listAssets E language d loaded)"
    and t': "Inr t' = (case r of Inl e \<Rightarrow> Inl e
                      | Inr None \<Rightarrow> Inr (Chain ds resolved None)
                      | Inr (Some c) \<Rightarrow> Inr (Chain ds resolved (Some c)))"
    by auto
  show ?case
  proof (cases r)
    case (Inl e)
    with t' show ?thesis by simp
  next
    case (Inr found)
    show ?thesis
    proof (cases found)
      case None
      with Inr t' "2.prems"(2) show ?thesis by simp
    next
      case (Some c)
      with Inr r begin_call [of l' c E language d loaded] have "built_call E c" by auto
      with Inr Some t' "2.prems"(2) show ?thesis by simp
    qed
  qed
next
  case (3 E language loaded ds resolved c)
  show ?case
  proof (cases "call_done c")
    case True
    with "3.prems"(1) obtain a where a: "return_of E c = Inr a"
      and t': "t' = Chain ds (resolved @ [a]) None"
      by (auto split: sum.splits)
    from "3.prems"(2) a have "built E a" by (auto intro: return_built)
    with "3.prems"(2) t' show ?thesis by simp
  next
    case False
    with "3.prems"(1) obtain c' where c': "(l', Inr c') \<in> set (call_steps E language loaded c)"
      and t': "t' = Chain ds resolved (Some c')"
      by (auto simp: map_sum_def split: sum.splits)
    from "3.IH" [OF False c'] "3.prems"(2) t' show ?thesis by simp
  qed
next
  case (4 E language loaded d library translation c1 c2 c3)
  from "4.prems"(1) consider
    (a) t where "(l', Inr t) \<in> set (chain_steps E language loaded c1)"
      "c' = Call d library translation t c2 c3"
  | (b) t where "(l', Inr t) \<in> set (chain_steps E language loaded c2)"
      "c' = Call d library translation c1 t c3"
  | (c) t where "(l', Inr t) \<in> set (chain_steps E language loaded c3)"
      "c' = Call d library translation c1 c2 t"
    by (auto simp: map_sum_def split: sum.splits)
  then show ?case
  proof cases
    case a with "4.IH"(1) "4.prems"(2) show ?thesis by simp
  next
    case b with "4.IH"(2) "4.prems"(2) show ?thesis by simp
  next
    case c with "4.IH"(3) "4.prems"(2) show ?thesis by simp
  qed
qed

lemma start_built:
  assumes "s \<in> set (listAssets_start E language root)"
  shows "built_state E s"
proof (cases s)
  case (Awaiting l c)
  with assms have "(l, Inr (Some c)) \<in> set (begin_listAssets E language root {})"
    by (auto simp: listAssets_start_def split: sum.splits option.splits)
  from begin_call [OF this] Awaiting show ?thesis by (auto simp: built_state_def)
next
  case (Resolved r)
  with assms have "r = None"
    by (auto simp: listAssets_start_def split: sum.splits option.splits)
  with Resolved show ?thesis by (simp add: built_state_def)
qed (simp add: built_state_def)

lemma step_built:
  assumes "built_state E s" and "s' \<in> set (listAssets_steps E language s)"
  shows "built_state E s'"
proof -
  from assms(2) obtain l c where s: "s = Awaiting l c" by (cases s) auto
  show ?thesis
  proof (cases "call_done c")
    case True
    with assms s show ?thesis
      by (auto simp: built_state_def intro: return_built split: sum.splits)
  next
    case False
    with assms s show ?thesis
      by (auto simp: built_state_def dest: steps_built(2) split: sum.splits)
  qed
qed

lemma run_built:
  assumes "is_run E language root f n" and "i \<le> n"
  shows "built_state E (f i)"
  using assms(2)
proof (induction i)
  case 0
  from assms(1) have "f 0 \<in> set (listAssets_start E language root)"
    by (simp add: is_run_def)
  then show ?case by (rule start_built)
next
  case (Suc i)
  with assms(1) have "f (Suc i) \<in> set (listAssets_steps E language (f i))"
    by (simp add: is_run_def)
  with Suc show ?case by (auto intro: step_built)
qed

subsection \<open>The cycle, evaluated\<close>

lemma keys: "toUberName lib_A default_options = Inr ''A-1.0''"
  "toUberName lib_B default_options = Inr ''B-1.0''"
  by (simp_all add: lib_A_def lib_B_def) code_simp+

lemma A_B: "lib_A \<noteq> lib_B" "lib_B \<noteq> lib_A"
  by (simp_all add: lib_A_def lib_B_def)

lemma cycle_dependencies:
  "dependencies_of cycle_editor lib_A = [lib_B]"
  "dependencies_of cycle_editor lib_B = [lib_A]"
  by (simp_all add: dependencies_of_def cycle_editor_def installed_library_def A_B)

lemma cycle_reachable: "reachable_libraries cycle_editor lib_A = {lib_A, lib_B}"
proof
  show "{lib_A, lib_B} \<subseteq> reachable_libraries cycle_editor lib_A"
    using reachable_step [OF root_reachable, of lib_B cycle_editor lib_A]
    by (simp add: root_reachable cycle_dependencies)
  show "reachable_libraries cycle_editor lib_A \<subseteq> {lib_A, lib_B}"
  proof
    fix x assume "x \<in> reachable_libraries cycle_editor lib_A"
    then have "(lib_A, x) \<in> {(d, y). y \<in> set (dependencies_of cycle_editor d)}\<^sup>*"
      by (simp add: reachable_libraries_def)
    then show "x \<in> {lib_A, lib_B}"
      by (induction rule: rtrancl_induct) (auto simp: cycle_dependencies)
  qed
qed

lemma cycle_start:
  "listAssets_start cycle_editor None lib_A =
     [Awaiting {''A-1.0''}
        (Call lib_A (installed_library ''A'' [lib_B]) None (Chain [lib_B] [] None) (Chain [] [] None) (Chain [] [] None))]"
  by (simp add: listAssets_start_def begin_listAssets_def keys lookups_def launch_def cycle_editor_def
      installed_library_def)

lemma cycle_begin_B:
  "begin_listAssets cycle_editor None lib_B {''A-1.0''} =
     [({''A-1.0'', ''B-1.0''}, Inr (Some (Call lib_B (installed_library ''B'' [lib_A]) None
         (Chain [lib_A] [] None) (Chain [] [] None) (Chain [] [] None))))]"
  by (auto simp: begin_listAssets_def keys lookups_def launch_def cycle_editor_def
      installed_library_def A_B)

lemma cycle_begin_A:
  "begin_listAssets cycle_editor None lib_A {''A-1.0'', ''B-1.0''} = [({''A-1.0'', ''B-1.0''}, Inr None)]"
  by (simp add: begin_listAssets_def keys)

lemma cycle_return_B:
  "finish_listAssets cycle_editor lib_B (installed_library ''B'' [lib_A]) None [[], [], []] = Inr assets_B"
  by (simp add: finish_listAssets_def library_files_def empty_assets_def assets_B_def
      cycle_editor_def installed_library_def)

lemma cycle_return_A:
  "finish_listAssets cycle_editor lib_A (installed_library ''A'' [lib_B]) None [[assets_B], [], []] = Inr assets_A"
  by (simp add: finish_listAssets_def library_files_def empty_assets_def add_dependency_def
      assets_A_def assets_B_def cycle_editor_def installed_library_def map_add_def)

lemma cycle_run_states:
  "cycle_run 0 = Awaiting {''A-1.0''}
        (Call lib_A (installed_library ''A'' [lib_B]) None (Chain [lib_B] [] None) (Chain [] [] None) (Chain [] [] None))"
  "cycle_run (Suc 0) = Awaiting {''A-1.0'', ''B-1.0''}
        (Call lib_A (installed_library ''A'' [lib_B]) None
           (Chain [] [] (Some (Call lib_B (installed_library ''B'' [lib_A]) None
              (Chain [lib_A] [] None) (Chain [] [] None) (Chain [] [] None))))
           (Chain [] [] None) (Chain [] [] None))"
  "cycle_run 2 = Awaiting {''A-1.0'', ''B-1.0''}
        (Call lib_A (installed_library ''A'' [lib_B]) None
           (Chain [] [] (Some (Call lib_B (installed_library ''B'' [lib_A]) None
              (Chain [] [] None) (Chain [] [] None) (Chain [] [] None))))
           (Chain [] [] None) (Chain [] [] None))"
  "cycle_run 3 = Awaiting {''A-1.0'', ''B-1.0''}
        (Call lib_A (installed_library ''A'' [lib_B]) None
           (Chain [] [assets_B] None) (Chain [] [] None) (Chain [] [] None))"
  "cycle_run 4 = Resolved (Some assets_A)"
  by (simp_all add: cycle_run_def cycle_start cycle_begin_B cycle_begin_A eval_nat_numeral
      cycle_return_B cycle_return_A)


lemma cycle_run_steps:
  "cycle_run 0 \<in> set (listAssets_start cycle_editor None lib_A)"
  "cycle_run (Suc 0) \<in> set (listAssets_steps cycle_editor None (cycle_run 0))"
  "cycle_run 2 \<in> set (listAssets_steps cycle_editor None (cycle_run (Suc 0)))"
  "cycle_run 3 \<in> set (listAssets_steps cycle_editor None (cycle_run 2))"
  "cycle_run 4 \<in> set (listAssets_steps cycle_editor None (cycle_run 3))"
  by (simp_all add: cycle_run_states cycle_start cycle_begin_B cycle_begin_A
      cycle_return_B cycle_return_A)

lemma cycle_is_run: "is_run cycle_editor None lib_A cycle_run 4"
  unfolding is_run_def
proof (intro conjI allI impI)
  show "cycle_run 0 \<in> set (listAssets_start cycle_editor None lib_A)"
    by (rule cycle_run_steps)
  fix i :: nat assume "i < 4"
  then consider "i = 0" | "i = Suc 0" | "i = 2" | "i = 3" by linarith
  then show "cycle_run (Suc i) \<in> set (listAssets_steps cycle_editor None (cycle_run i))"
    using cycle_run_steps by cases (simp_all add: numeral_2_eq_2 numeral_3_eq_3 eval_nat_numeral)
qed

text \<open>
  C3. For a root from which finitely many libraries can be reached (cycles included),
  whatever the interleaving of the dependency chains: there is no infinite run; a run
  can only stop when \<open>listAssets\<close> has resolved or rejected; and the assets it
  resolves to include each library that can be reached from the root exactly once (no
  library twice, none missing, none else), the scripts and styles being those of the
  included libraries in that order: no library is processed or emitted a second time.
\<close>

theorem listAssets_terminates_and_includes_once:
  assumes "finite (reachable_libraries E root)"
  shows "\<not> (\<exists>f. \<forall>n. is_run E language root f n) \<and>
    (\<forall>s. listAssets_steps E language s = [] \<longleftrightarrow> (\<exists>r. s = Resolved r) \<or> (\<exists>e. s = Rejected e)) \<and>
    (\<forall>f n a. is_run E language root f n \<and> f n = Resolved (Some a) \<longrightarrow>
       distinct (included a) \<and> set (included a) = reachable_libraries E root \<and>
       scripts a = concat (map (\<lambda>d. fst (own_files E d)) (included a)) \<and>
       styles a = concat (map (\<lambda>d. snd (own_files E d)) (included a)))"
proof (intro conjI allI impI)
  show "\<not> (\<exists>f. \<forall>n. is_run E language root f n)"
    using assms by (rule no_infinite_run)
next
  fix s
  show "listAssets_steps E language s = [] \<longleftrightarrow> (\<exists>r. s = Resolved r) \<or> (\<exists>e. s = Rejected e)"
    by (rule settled_iff)
next
  fix f n a
  assume h: "is_run E language root f n \<and> f n = Resolved (Some a)"
  then have run: "is_run E language root f n" and fn: "f n = Resolved (Some a)" by simp_all
  have "n \<noteq> 0"
  proof
    assume "n = 0"
    with run fn have "Resolved (Some a) \<in> set (listAssets_start E language root)"
      by (simp add: is_run_def)
    then show False
      by (auto simp: listAssets_start_def begin_listAssets_def split: sum.splits option.splits if_splits)
  qed
  then obtain m where n: "n = Suc m" by (cases n) auto
  with run fn have step: "Resolved (Some a) \<in> set (listAssets_steps E language (f m))"
    by (auto simp: is_run_def)
  then obtain l c where fm: "f m = Awaiting l c" by (cases "f m") auto
  with step have dn: "call_done c" and ret: "return_of E c = Inr a"
    by (auto split: if_splits sum.splits)
  from run n have "good E root (f m)" by (intro run_good [of E language root f n]) simp_all
  with fm have g: "good E root (Awaiting l c)" by simp
  from resolved_includes_once [OF g dn ret]
  show "distinct (included a)" and "set (included a) = reachable_libraries E root" by simp_all
  from run have "built_state E (f n)" by (rule run_built) simp
  with fn show "scripts a = concat (map (\<lambda>d. fst (own_files E d)) (included a))"
    and "styles a = concat (map (\<lambda>d. snd (own_files E d)) (included a))"
    by (simp_all add: built_state_def built_def)
qed

theorem listAssets_terminates_and_includes_once_witness:
  "is_run cycle_editor None lib_A cycle_run 4 \<and>
   cycle_run 4 = Resolved (Some assets_A) \<and>
   included assets_A = [lib_B, lib_A] \<and>
   distinct (included assets_A) \<and>
   set (included assets_A) = reachable_libraries cycle_editor lib_A \<and>
   \<not> (\<exists>f. \<forall>n. is_run cycle_editor None lib_A f n)"
proof -
  have fin: "finite (reachable_libraries cycle_editor lib_A)"
    by (simp add: cycle_reachable)
  have last: "cycle_run 4 = Resolved (Some assets_A)"
    by (rule cycle_run_states)
  from listAssets_terminates_and_includes_once [OF fin, of None] cycle_is_run last
  have "distinct (included assets_A)"
    and "set (included assets_A) = reachable_libraries cycle_editor lib_A"
    and "\<not> (\<exists>f. \<forall>n. is_run cycle_editor None lib_A f n)"
    by blast+
  with cycle_is_run last show ?thesis by (simp add: assets_A_def)
qed

end
